theory Spec2Isabelle
  imports Main "HOL-Library.Word"
begin

unbundle bit_operations_syntax

section \<open>The request manager: data model\<close>

text \<open>
  The package \<open>requestmanager\<close> correlates outgoing requests with their replies. This
  theory embeds its types and functions and the interleavings of its calls.

  \<^item> \<open>RequestIdentifier = [8]byte\<close> is a list of bytes (always of length 8 here).
  \<^item> \<open>time.Duration\<close> is a 64-bit integer.
  \<^item> A pointer to a \<open>RequestManager\<close> and a channel are addresses (\<open>nat\<close>).
  \<^item> \<open>pld.Payload\<close> is declared outside this repository: it is the type parameter
    \<open>'p\<close>, and Go's zero value of that struct is the \<open>0\<close> of the type.
  \<^item> A value of the interface \<open>webwire.Payload\<close> is \<open>nil\<close> (\<open>None\<close>) or a pointer to
    an \<open>EncodedPayload\<close>; a value of the interface \<open>error\<close> is \<open>nil\<close> (\<open>None\<close>) or an
    error.
\<close>

type_synonym byte = "8 word"
type_synonym RequestIdentifier = "byte list"
type_synonym Duration = "64 word"
type_synonym mref = nat
type_synonym chanref = nat

datatype 'p EncodedPayload = EncodedPayload (Payload: 'p)

text \<open>The two values \<open>ctx.Err()\<close> takes once \<open>ctx.Done()\<close> is closed.\<close>

datatype context_error = Canceled | DeadlineExceeded

text \<open>
  Go errors. \<open>TimeoutErr\<close> is what \<open>webwire.NewTimeoutErr\<close> builds from its cause,
  \<open>CanceledErr\<close> what \<open>webwire.TranslateContextError\<close> returns, and \<open>OtherErr\<close> any
  other error value (of the transport, opaque here).
\<close>

datatype 'e error = TimeoutErr string | CanceledErr context_error | OtherErr 'e

text \<open>
  Modelled from the spec: \<open>webwire.TranslateContextError\<close> belongs to the webwire
  library and is not among the sources. The spec has the cancellation branch return a
  \<open>Canceled\<close> outcome (an error), so the translation of a context error is never \<open>nil\<close>.
\<close>

definition TranslateContextError :: "context_error \<Rightarrow> 'e error option" where
  "TranslateContextError e = Some (CanceledErr e)"

definition NewTimeoutErr :: "string \<Rightarrow> 'e error" where
  "NewTimeoutErr cause = TimeoutErr cause"

record ('p, 'e) reply =
  Reply :: "'p EncodedPayload option"
  Error :: "'e error option"

record Request =
  manager :: mref
  "identifier" :: RequestIdentifier
  timeout :: Duration
  reply :: chanref

text \<open>
  The manager. Its lock is not a field of the model: a section of code between \<open>Lock\<close>
  (or \<open>RLock\<close>) and the matching unlock is one atomic step of the interleaving
  semantics below.
\<close>

record RequestManager =
  lastID :: "64 word"
  pending :: "RequestIdentifier \<rightharpoonup> Request"

text \<open>
  A Go channel: its capacity, fixed by \<open>make\<close>, and the values buffered in it.
  \<open>make(chan T)\<close> is \<open>make(chan T, 0)\<close>. The channels live in a store, a list indexed
  by address; \<open>make\<close> allocates the next address.
\<close>

record 'a chan =
  cap :: nat
  buf :: "'a list"

definition make_chan :: "nat \<Rightarrow> 'a chan list \<Rightarrow> 'a chan list \<times> chanref" where
  "make_chan n cs = (cs @ [\<lparr>cap = n, buf = []\<rparr>], length cs)"

section \<open>The functions of the manager\<close>

text \<open>\<open>binary.LittleEndian.PutUint64\<close>: byte \<open>i\<close> is \<open>byte(v >> (8 * i))\<close>.\<close>

definition PutUint64 :: "64 word \<Rightarrow> byte list" where
  "PutUint64 v =
     [ucast v, ucast (drop_bit 8 v), ucast (drop_bit 16 v), ucast (drop_bit 24 v),
      ucast (drop_bit 32 v), ucast (drop_bit 40 v), ucast (drop_bit 48 v),
      ucast (drop_bit 56 v)]"

text \<open>Reading a little-endian byte string back as an unsigned number.\<close>

fun Uint64 :: "byte list \<Rightarrow> 64 word" where
  "Uint64 [] = 0"
| "Uint64 (b # bs) = ucast b OR push_bit 8 (Uint64 bs)"

definition NewRequestManager :: RequestManager where
  "NewRequestManager = \<lparr>lastID = 0, pending = Map.empty\<rparr>"

text \<open>
  \<open>Create\<close>, the whole body under the write lock. \<open>this\<close> is the receiver pointer, the
  state is the manager it points to and the channel store.
\<close>

definition Create ::
  "mref \<Rightarrow> Duration \<Rightarrow> RequestManager \<times> 'a chan list \<Rightarrow>
     (RequestManager \<times> 'a chan list) \<times> Request" where
  "Create this tmo st =
     (let M = fst st;
          lastID' = lastID M + 1;
          idBytes = PutUint64 lastID';
          identifier' = take 8 idBytes;
          (cs', ch) = make_chan 0 (snd st);
          newRequest = \<lparr>manager = this, identifier = identifier', timeout = tmo, reply = ch\<rparr>
      in ((M\<lparr>lastID := lastID', pending := (pending M)(identifier' \<mapsto> newRequest)\<rparr>, cs'),
          newRequest))"

definition deregister :: "RequestIdentifier \<Rightarrow> RequestManager \<Rightarrow> RequestManager" where
  "deregister ident M = M\<lparr>pending := (pending M)(ident := None)\<rparr>"

definition IsPending :: "RequestManager \<Rightarrow> RequestIdentifier \<Rightarrow> bool" where
  "IsPending M ident = (pending M ident \<noteq> None)"

text \<open>
  \<open>AwaitReply\<close> blocks in a \<open>select\<close> with three cases. Which case the \<open>select\<close> takes
  is decided by the scheduler; given the case, the body is a function of the state of
  the manager that \<open>req.manager\<close> points to. It returns the new state and the pair
  (payload, error).
\<close>

datatype ('p, 'e) select_case =
    CtxDone context_error
  | TimerC
  | Recv "('p, 'e) reply"

fun AwaitReply ::
  "Request \<Rightarrow> ('p::zero, 'e) select_case \<Rightarrow> RequestManager \<Rightarrow>
     RequestManager \<times> 'p EncodedPayload option \<times> 'e error option" where
  "AwaitReply req (CtxDone e) M =
     (deregister (identifier req) M, None, TranslateContextError e)"
| "AwaitReply req TimerC M =
     (deregister (identifier req) M,
      Some (EncodedPayload 0), Some (NewTimeoutErr ''timed out''))"
| "AwaitReply req (Recv rp) M =
     (if Error rp \<noteq> None then (M, None, Error rp)
      else if Reply rp = None then (M, Some (EncodedPayload 0), None)
      else (M, Reply rp, None))"

text \<open>The requests returned by successive calls of \<open>Create\<close>, one per timeout.\<close>

fun Creates ::
  "mref \<Rightarrow> Duration list \<Rightarrow> RequestManager \<times> 'a chan list \<Rightarrow> Request list" where
  "Creates this [] st = []"
| "Creates this (t # ts) st =
     (case Create this t st of (st', r) \<Rightarrow> r # Creates this ts st')"

section \<open>Interleavings of calls\<close>

text \<open>
  \<open>Fulfill\<close> and \<open>Fail\<close> run the same code and differ in the reply they send: a call
  of either is a \<open>resolver\<close> with its argument.
\<close>

datatype ('p, 'e) resolver = Fulfill 'p | Fail "'e error option"

fun reply_of :: "('p, 'e) resolver \<Rightarrow> ('p, 'e) reply" where
  "reply_of (Fulfill payload) = \<lparr>Reply = Some (EncodedPayload payload), Error = None\<rparr>"
| "reply_of (Fail err) = \<lparr>Reply = None, Error = err\<rparr>"

text \<open>
  A thread of control is at one of these places. A thread that has returned from
  \<open>Fulfill\<close> or \<open>Fail\<close> stays where it is (a later call is another thread); the thread
  that has created a handle goes on to await it.
  \<^item> \<open>Create_ret r\<close>: \<open>Create\<close> has returned the handle \<open>r\<close>.
  \<^item> \<open>Await_select r\<close>: in \<open>r.AwaitReply\<close>, blocked in the \<open>select\<close>.
  \<^item> \<open>Await_case r c\<close>: the \<open>select\<close> has taken case \<open>c\<close>, whose body has not run yet.
  \<^item> \<open>Await_ret r c p e\<close>: \<open>AwaitReply\<close> has returned \<open>(p, e)\<close> from case \<open>c\<close>.
  \<^item> \<open>Resolve_lookup ident res\<close>: \<open>Fulfill\<close> or \<open>Fail\<close> is called, before \<open>RLock\<close>.
  \<^item> \<open>Resolve_send ident res req\<close>: the entry \<open>req\<close> was found; blocked in the send
    \<open>req.reply <- reply{...}\<close>.
  \<^item> \<open>Resolve_dereg ident res\<close>: the send is done, \<open>deregister\<close> is next.
  \<^item> \<open>Resolve_ret ident res b\<close>: the call has returned \<open>b\<close>.
\<close>

datatype ('p, 'e) thread =
    Idle
  | Create_ret Request
  | Await_select Request
  | Await_case Request "('p, 'e) select_case"
  | Await_ret Request "('p, 'e) select_case" "'p EncodedPayload option" "'e error option"
  | Resolve_lookup RequestIdentifier "('p, 'e) resolver"
  | Resolve_send RequestIdentifier "('p, 'e) resolver" Request
  | Resolve_dereg RequestIdentifier "('p, 'e) resolver"
  | Resolve_ret RequestIdentifier "('p, 'e) resolver" bool

record ('p, 'e) config =
  mgr :: RequestManager
  chans :: "('p, 'e) reply chan list"
  threads :: "nat \<Rightarrow> ('p, 'e) thread"

text \<open>
  The atomic steps, named by the thread that takes them. A handle is awaited by the
  thread that created it, and only handles of this manager are awaited. The code does
  not stop a second \<open>AwaitReply\<close> on a handle whose first one has returned
  (\<open>Call_AwaitReply_again\<close>), which the spec forbids (callable exactly once per handle):
  the schedules without such a step are those with \<open>awaits_once\<close>.
  \<open>Handoff i j\<close> is the rendezvous of the sender \<open>i\<close>
  with the receiver \<open>j\<close> on a channel with nothing buffered; \<open>Send_buf\<close> and \<open>Recv_buf\<close>
  are the send into and the receive from the buffer of a channel that has one.
  \<open>Ctx_Done\<close> and \<open>Timer\<close> are the \<open>select\<close> taking the case of the context or of the
  timer, which may be ready at any moment (time is not modelled).
\<close>

datatype ('p, 'e) event =
    Call_Create nat Duration
  | Call_AwaitReply nat
  | Call_AwaitReply_again nat
  | Call_Fulfill nat RequestIdentifier 'p
  | Call_Fail nat RequestIdentifier "'e error option"
  | Lookup nat
  | Handoff nat nat
  | Send_buf nat
  | Recv_buf nat
  | Ctx_Done nat context_error
  | Timer nat
  | Await_body nat
  | Deregister nat

fun exec ::
  "mref \<Rightarrow> ('p::zero, 'e) event \<Rightarrow> ('p, 'e) config \<Rightarrow> ('p, 'e) config option" where
  "exec this (Call_Create i tmo) s =
     (case threads s i of
        Idle \<Rightarrow>
          (case Create this tmo (mgr s, chans s) of
             ((M', cs'), r) \<Rightarrow>
               Some (s\<lparr>mgr := M', chans := cs', threads := (threads s)(i := Create_ret r)\<rparr>))
      | _ \<Rightarrow> None)"
| "exec this (Call_AwaitReply i) s =
     (case threads s i of
        Create_ret r \<Rightarrow>
          if manager r = this
          then Some (s\<lparr>threads := (threads s)(i := Await_select r)\<rparr>)
          else None
      | _ \<Rightarrow> None)"
| "exec this (Call_AwaitReply_again i) s =
     (case threads s i of
        Await_ret r c p e \<Rightarrow> Some (s\<lparr>threads := (threads s)(i := Await_select r)\<rparr>)
      | _ \<Rightarrow> None)"
| "exec this (Call_Fulfill i ident payload) s =
     (case threads s i of
        Idle \<Rightarrow> Some (s\<lparr>threads := (threads s)(i := Resolve_lookup ident (Fulfill payload))\<rparr>)
      | _ \<Rightarrow> None)"
| "exec this (Call_Fail i ident err) s =
     (case threads s i of
        Idle \<Rightarrow> Some (s\<lparr>threads := (threads s)(i := Resolve_lookup ident (Fail err))\<rparr>)
      | _ \<Rightarrow> None)"
| "exec this (Lookup i) s =
     (case threads s i of
        Resolve_lookup ident res \<Rightarrow>
          (case pending (mgr s) ident of
             None \<Rightarrow> Some (s\<lparr>threads := (threads s)(i := Resolve_ret ident res False)\<rparr>)
           | Some req \<Rightarrow> Some (s\<lparr>threads := (threads s)(i := Resolve_send ident res req)\<rparr>))
      | _ \<Rightarrow> None)"
| "exec this (Handoff i j) s =
     (case threads s i of
        Resolve_send ident res req \<Rightarrow>
          (case threads s j of
             Await_select r \<Rightarrow>
               if reply req = reply r \<and> reply r < length (chans s)
                  \<and> buf (chans s ! reply r) = []
               then Some (s\<lparr>threads := (threads s)
                             (i := Resolve_dereg ident res,
                              j := Await_case r (Recv (reply_of res)))\<rparr>)
               else None
           | _ \<Rightarrow> None)
      | _ \<Rightarrow> None)"
| "exec this (Send_buf i) s =
     (case threads s i of
        Resolve_send ident res req \<Rightarrow>
          if reply req < length (chans s)
             \<and> length (buf (chans s ! reply req)) < cap (chans s ! reply req)
          then Some (s\<lparr>chans := (chans s)
                         [reply req := (chans s ! reply req)
                            \<lparr>buf := buf (chans s ! reply req) @ [reply_of res]\<rparr>],
                       threads := (threads s)(i := Resolve_dereg ident res)\<rparr>)
          else None
      | _ \<Rightarrow> None)"
| "exec this (Recv_buf j) s =
     (case threads s j of
        Await_select r \<Rightarrow>
          if reply r < length (chans s)
          then (case buf (chans s ! reply r) of
                  [] \<Rightarrow> None
                | v # vs \<Rightarrow>
                    Some (s\<lparr>chans := (chans s)[reply r := (chans s ! reply r)\<lparr>buf := vs\<rparr>],
                            threads := (threads s)(j := Await_case r (Recv v))\<rparr>))
          else None
      | _ \<Rightarrow> None)"
| "exec this (Ctx_Done j e) s =
     (case threads s j of
        Await_select r \<Rightarrow> Some (s\<lparr>threads := (threads s)(j := Await_case r (CtxDone e))\<rparr>)
      | _ \<Rightarrow> None)"
| "exec this (Timer j) s =
     (case threads s j of
        Await_select r \<Rightarrow> Some (s\<lparr>threads := (threads s)(j := Await_case r TimerC)\<rparr>)
      | _ \<Rightarrow> None)"
| "exec this (Await_body j) s =
     (case threads s j of
        Await_case r c \<Rightarrow>
          (case AwaitReply r c (mgr s) of
             (M', p, e) \<Rightarrow>
               Some (s\<lparr>mgr := M', threads := (threads s)(j := Await_ret r c p e)\<rparr>))
      | _ \<Rightarrow> None)"
| "exec this (Deregister i) s =
     (case threads s i of
        Resolve_dereg ident res \<Rightarrow>
          Some (s\<lparr>mgr := deregister ident (mgr s),
                  threads := (threads s)(i := Resolve_ret ident res True)\<rparr>)
      | _ \<Rightarrow> None)"

text \<open>A schedule is a list of steps; \<open>run\<close> is \<open>None\<close> when one of them is not enabled.\<close>

fun run ::
  "mref \<Rightarrow> ('p::zero, 'e) event list \<Rightarrow> ('p, 'e) config \<Rightarrow> ('p, 'e) config option" where
  "run this [] s = Some s"
| "run this (ev # evs) s =
     (case exec this ev s of None \<Rightarrow> None | Some s' \<Rightarrow> run this evs s')"

text \<open>The start: the manager of \<open>NewRequestManager\<close>, no channel, every thread idle.\<close>

definition init :: "('p, 'e) config" where
  "init = \<lparr>mgr = NewRequestManager, chans = [], threads = (\<lambda>i. Idle)\<rparr>"

fun is_Create :: "('p, 'e) event \<Rightarrow> bool" where
  "is_Create (Call_Create i tmo) = True"
| "is_Create _ = False"

text \<open>The number of calls of \<open>Create\<close> in a schedule.\<close>

definition creations :: "('p, 'e) event list \<Rightarrow> nat" where
  "creations evs = length (filter is_Create evs)"

fun is_again :: "('p, 'e) event \<Rightarrow> bool" where
  "is_again (Call_AwaitReply_again i) = True"
| "is_again _ = False"

text \<open>No handle is awaited a second time.\<close>

definition awaits_once :: "('p, 'e) event list \<Rightarrow> bool" where
  "awaits_once evs = (filter is_again evs = [])"

section \<open>Properties of states\<close>

text \<open>Every entry of the table is filed under its own identifier and names this manager.\<close>

definition handle_consistent :: "mref \<Rightarrow> ('p, 'e) config \<Rightarrow> bool" where
  "handle_consistent this s =
     (\<forall>k r. pending (mgr s) k = Some r \<longrightarrow> identifier r = k \<and> manager r = this)"

text \<open>
  \<open>resolves t k\<close>: the thread \<open>t\<close> has resolved the request \<open>k\<close>. It is a \<open>Fulfill\<close> or
  \<open>Fail\<close> of \<open>k\<close> whose send is done (what is left of it is to remove the entry and to
  return \<open>true\<close>), or the \<open>AwaitReply\<close> of the handle \<open>k\<close> whose \<open>select\<close> took the case
  of the timer or of the context (it removes the entry and returns that error).
\<close>

fun resolves :: "('p, 'e) thread \<Rightarrow> RequestIdentifier \<Rightarrow> bool" where
  "resolves (Resolve_dereg ident res) k = (ident = k)"
| "resolves (Resolve_ret ident res b) k = (b \<and> ident = k)"
| "resolves (Await_case r (CtxDone e)) k = (identifier r = k)"
| "resolves (Await_case r TimerC) k = (identifier r = k)"
| "resolves (Await_ret r (CtxDone e) p err) k = (identifier r = k)"
| "resolves (Await_ret r TimerC p err) k = (identifier r = k)"
| "resolves _ k = False"

text \<open>The handle a thread has from \<open>Create\<close>, and any request a thread holds.\<close>

fun handle_of :: "('p, 'e) thread \<Rightarrow> Request option" where
  "handle_of (Create_ret r) = Some r"
| "handle_of (Await_select r) = Some r"
| "handle_of (Await_case r c) = Some r"
| "handle_of (Await_ret r c p e) = Some r"
| "handle_of _ = None"

fun held :: "('p, 'e) thread \<Rightarrow> Request option" where
  "held (Resolve_send ident res req) = Some req"
| "held t = handle_of t"

text \<open>
  \<open>sent t\<close>: the send of this \<open>Fulfill\<close> or \<open>Fail\<close> is done, for which identifier and
  with which reply. \<open>received t\<close>: the \<open>select\<close> of this \<open>AwaitReply\<close> took the reply case,
  with which reply.
\<close>

fun sent :: "('p, 'e) thread \<Rightarrow> (RequestIdentifier \<times> ('p, 'e) reply) option" where
  "sent (Resolve_dereg ident res) = Some (ident, reply_of res)"
| "sent (Resolve_ret ident res b) = (if b then Some (ident, reply_of res) else None)"
| "sent _ = None"

fun received :: "('p, 'e) thread \<Rightarrow> ('p, 'e) reply option" where
  "received (Await_case r (Recv rp)) = Some rp"
| "received (Await_ret r (Recv rp) p e) = Some rp"
| "received _ = None"

text \<open>
  The facts that hold of a state after \<open>n\<close> calls of \<open>Create\<close>, when no handle is awaited
  twice and \<open>n < 2^64\<close>: the counter is \<open>n\<close> and there are \<open>n\<close> channels, all of
  capacity 0; the \<open>k\<close>-th request has the channel \<open>k - 1\<close> and the identifier of \<open>k\<close>;
  a handle is in the hands of one thread; a send that is done was received by the
  \<open>AwaitReply\<close> of that handle, and no other send for that identifier is done; a
  request on which \<open>Fulfill\<close> or \<open>Fail\<close> returned \<open>true\<close> is no longer in the table;
  what an \<open>AwaitReply\<close> returned is what the body of the case it took returns; and the
  entry of a handle is in the table until a reply is received for it or its \<open>AwaitReply\<close>
  removes it.
\<close>

definition counters_ok :: "nat \<Rightarrow> ('p, 'e) config \<Rightarrow> bool" where
  "counters_ok n s =
     (lastID (mgr s) = of_nat n \<and> length (chans s) = n
      \<and> (\<forall>c < n. cap (chans s ! c) = 0 \<and> buf (chans s ! c) = []))"

definition wf_req :: "mref \<Rightarrow> nat \<Rightarrow> Request \<Rightarrow> bool" where
  "wf_req this n r =
     (manager r = this \<and> reply r < n \<and> identifier r = PutUint64 (of_nat (Suc (reply r))))"

definition requests_ok :: "mref \<Rightarrow> nat \<Rightarrow> ('p, 'e) config \<Rightarrow> bool" where
  "requests_ok this n s =
     ((\<forall>k r. pending (mgr s) k = Some r \<longrightarrow> identifier r = k \<and> wf_req this n r)
      \<and> (\<forall>i r. held (threads s i) = Some r \<longrightarrow> wf_req this n r)
      \<and> (\<forall>i ident res req. threads s i = Resolve_send ident res req \<longrightarrow> identifier req = ident))"

definition single_owner :: "('p, 'e) config \<Rightarrow> bool" where
  "single_owner s =
     (\<forall>i j r r'. handle_of (threads s i) = Some r \<and> handle_of (threads s j) = Some r'
         \<and> reply r = reply r' \<longrightarrow> i = j)"

definition sent_received :: "('p, 'e) config \<Rightarrow> bool" where
  "sent_received s =
     (\<forall>i k rp. sent (threads s i) = Some (k, rp) \<longrightarrow>
        (\<exists>j r. handle_of (threads s j) = Some r \<and> identifier r = k
               \<and> received (threads s j) = Some rp))"

definition sent_once :: "('p, 'e) config \<Rightarrow> bool" where
  "sent_once s =
     (\<forall>i i' k rp rp'. sent (threads s i) = Some (k, rp) \<and> sent (threads s i') = Some (k, rp')
         \<longrightarrow> i = i')"

text \<open>
  An identifier for which a send is done is one that \<open>Create\<close> has allocated: it is the
  identifier of some \<open>k\<close> from 1 to \<open>n\<close>.
\<close>

definition sent_allocated :: "nat \<Rightarrow> ('p, 'e) config \<Rightarrow> bool" where
  "sent_allocated n s =
     (\<forall>i k rp. sent (threads s i) = Some (k, rp) \<longrightarrow>
        (\<exists>c. c < n \<and> k = PutUint64 (of_nat (Suc c))))"

definition returned_absent :: "('p, 'e) config \<Rightarrow> bool" where
  "returned_absent s =
     (\<forall>i k res. threads s i = Resolve_ret k res True \<longrightarrow> pending (mgr s) k = None)"

text \<open>
  \<open>awaiting t\<close>: the handle of this thread is created or awaited, and its \<open>AwaitReply\<close>
  has neither received a reply nor run the body of the timeout or cancellation case.
\<close>

fun awaiting :: "('p, 'e) thread \<Rightarrow> Request option" where
  "awaiting (Create_ret r) = Some r"
| "awaiting (Await_select r) = Some r"
| "awaiting (Await_case r (CtxDone e)) = Some r"
| "awaiting (Await_case r TimerC) = Some r"
| "awaiting _ = None"

definition owner_pending :: "('p, 'e) config \<Rightarrow> bool" where
  "owner_pending s =
     (\<forall>j r. awaiting (threads s j) = Some r \<longrightarrow> pending (mgr s) (identifier r) = Some r)"

definition returns_ok :: "('p::zero, 'e) config \<Rightarrow> bool" where
  "returns_ok s =
     (\<forall>j r c p e. threads s j = Await_ret r c p e \<longrightarrow> snd (AwaitReply r c (mgr s)) = (p, e))"

definition inv :: "mref \<Rightarrow> nat \<Rightarrow> ('p::zero, 'e) config \<Rightarrow> bool" where
  "inv this n s =
     (counters_ok n s \<and> requests_ok this n s \<and> single_owner s \<and> sent_received s
      \<and> sent_once s \<and> returned_absent s \<and> returns_ok s \<and> owner_pending s)"

section \<open>Schedules of two threads\<close>

text \<open>
  Thread 0 creates a request (the first: its identifier is that of 1) and awaits the
  reply; thread 1 calls \<open>Fulfill\<close> with the payload 7. In \<open>sched_reply\<close> the reply is
  handed over and \<open>AwaitReply\<close> returns before \<open>Fulfill\<close> goes on; \<open>sched_resolved\<close>
  lets \<open>Fulfill\<close> return too, and \<open>sched_second_resolver\<close> adds a \<open>Fail\<close> of thread 2 up
  to its lookup. In \<open>sched_timeout\<close> and \<open>sched_cancel\<close> the \<open>select\<close> takes the timer or
  the context while \<open>Fulfill\<close> is blocked in its send.
  \<open>sched_handed\<close> stops right after the hand-over. In \<open>sched_double_await\<close> a \<open>Fulfill\<close>
  (thread 1) and a \<open>Fail\<close> (thread 2) have both found the entry; the first
  \<open>AwaitReply\<close> receives from the one, a second \<open>AwaitReply\<close> on the same handle from
  the other, and both calls run their \<open>deregister\<close> and return.
\<close>

definition id1 :: RequestIdentifier where
  "id1 = PutUint64 1"

definition sched_found :: "(nat, nat) event list" where
  "sched_found = [Call_Create 0 5, Call_AwaitReply 0, Call_Fulfill 1 id1 7, Lookup 1]"

definition sched_reply :: "(nat, nat) event list" where
  "sched_reply = sched_found @ [Handoff 1 0, Await_body 0]"

definition sched_resolved :: "(nat, nat) event list" where
  "sched_resolved = sched_reply @ [Deregister 1]"

definition sched_second_resolver :: "(nat, nat) event list" where
  "sched_second_resolver = sched_resolved @ [Call_Fail 2 id1 None]"

definition sched_timeout :: "(nat, nat) event list" where
  "sched_timeout = sched_found @ [Timer 0, Await_body 0]"

definition sched_cancel :: "(nat, nat) event list" where
  "sched_cancel = sched_found @ [Ctx_Done 0 Canceled, Await_body 0]"


definition sched_double_await :: "(nat, nat) event list" where
  "sched_double_await =
     [Call_Create 0 5, Call_AwaitReply 0, Call_Fulfill 1 id1 7, Lookup 1,
      Call_Fail 2 id1 None, Lookup 2, Handoff 1 0, Await_body 0,
      Call_AwaitReply_again 0, Handoff 2 0, Await_body 0, Deregister 1, Deregister 2]"

text \<open>The states these schedules end in.\<close>

definition req1 :: Request where
  "req1 = \<lparr>manager = 0, identifier = id1, timeout = 5, reply = 0\<rparr>"

definition all_idle :: "nat \<Rightarrow> (nat, nat) thread" where
  "all_idle i = Idle"

definition cfg_found :: "(nat, nat) config" where
  "cfg_found =
     \<lparr>mgr = \<lparr>lastID = 1, pending = [id1 \<mapsto> req1]\<rparr>,
      chans = [\<lparr>cap = 0, buf = []\<rparr>],
      threads = all_idle(0 := Await_select req1, 1 := Resolve_send id1 (Fulfill 7) req1)\<rparr>"

definition cfg_reply :: "(nat, nat) config" where
  "cfg_reply =
     \<lparr>mgr = \<lparr>lastID = 1, pending = [id1 \<mapsto> req1]\<rparr>,
      chans = [\<lparr>cap = 0, buf = []\<rparr>],
      threads = all_idle
        (0 := Await_ret req1 (Recv (reply_of (Fulfill 7))) (Some (EncodedPayload 7)) None,
         1 := Resolve_dereg id1 (Fulfill 7))\<rparr>"

definition cfg_resolved :: "(nat, nat) config" where
  "cfg_resolved =
     \<lparr>mgr = \<lparr>lastID = 1, pending = Map.empty\<rparr>,
      chans = [\<lparr>cap = 0, buf = []\<rparr>],
      threads = all_idle
        (0 := Await_ret req1 (Recv (reply_of (Fulfill 7))) (Some (EncodedPayload 7)) None,
         1 := Resolve_ret id1 (Fulfill 7) True)\<rparr>"

definition cfg_second_resolver :: "(nat, nat) config" where
  "cfg_second_resolver =
     cfg_resolved\<lparr>threads := (threads cfg_resolved)(2 := Resolve_lookup id1 (Fail None))\<rparr>"

definition cfg_timeout :: "(nat, nat) config" where
  "cfg_timeout =
     \<lparr>mgr = \<lparr>lastID = 1, pending = Map.empty\<rparr>,
      chans = [\<lparr>cap = 0, buf = []\<rparr>],
      threads = all_idle
        (0 := Await_ret req1 TimerC (Some (EncodedPayload 0)) (Some (TimeoutErr ''timed out'')),
         1 := Resolve_send id1 (Fulfill 7) req1)\<rparr>"

definition cfg_cancel :: "(nat, nat) config" where
  "cfg_cancel =
     \<lparr>mgr = \<lparr>lastID = 1, pending = Map.empty\<rparr>,
      chans = [\<lparr>cap = 0, buf = []\<rparr>],
      threads = all_idle
        (0 := Await_ret req1 (CtxDone Canceled) None (Some (CanceledErr Canceled)),
         1 := Resolve_send id1 (Fulfill 7) req1)\<rparr>"


definition cfg_double_await :: "(nat, nat) config" where
  "cfg_double_await =
     \<lparr>mgr = \<lparr>lastID = 1, pending = Map.empty\<rparr>,
      chans = [\<lparr>cap = 0, buf = []\<rparr>],
      threads = all_idle
        (0 := Await_ret req1 (Recv (reply_of (Fail None))) (Some (EncodedPayload 0)) None,
         1 := Resolve_ret id1 (Fulfill 7) True,
         2 := Resolve_ret id1 (Fail None) True)\<rparr>"

section \<open>Identifier allocation\<close>

lemma byte_split:
  "(ucast (ucast (drop_bit k v) :: byte) :: 64 word) OR push_bit 8 (drop_bit (k + 8) v)
     = drop_bit k v"
proof (rule bit_eqI)
  fix n
  assume "possible_bit TYPE(64 word) n"
  show "bit ((ucast (ucast (drop_bit k v) :: byte) :: 64 word)
              OR push_bit 8 (drop_bit (k + 8) v)) n
      = bit (drop_bit k v) n"
  proof (cases "n < 8")
    case True
    then show ?thesis by (simp add: bit_simps add.commute)
  next
    case False
    then have "k + 8 + (n - 8) = k + n" by simp
    with False show ?thesis
      by (auto simp add: bit_simps add.commute dest: bit_imp_le_length)
  qed
qed

lemma drop_bit_64: "drop_bit 64 (v :: 64 word) = 0"
  by (rule bit_eqI) (simp add: bit_simps)

lemma Uint64_PutUint64: "Uint64 (PutUint64 v) = v"
proof -
  have 7: "ucast (ucast (drop_bit 56 v) :: byte) OR push_bit 8 0 = drop_bit 56 v"
    using byte_split [of 56 v] by (simp add: drop_bit_64)
  have 6: "ucast (ucast (drop_bit 48 v) :: byte) OR push_bit 8 (drop_bit 56 v) = drop_bit 48 v"
    using byte_split [of 48 v] by simp
  have 5: "ucast (ucast (drop_bit 40 v) :: byte) OR push_bit 8 (drop_bit 48 v) = drop_bit 40 v"
    using byte_split [of 40 v] by simp
  have 4: "ucast (ucast (drop_bit 32 v) :: byte) OR push_bit 8 (drop_bit 40 v) = drop_bit 32 v"
    using byte_split [of 32 v] by simp
  have 3: "ucast (ucast (drop_bit 24 v) :: byte) OR push_bit 8 (drop_bit 32 v) = drop_bit 24 v"
    using byte_split [of 24 v] by simp
  have 2: "ucast (ucast (drop_bit 16 v) :: byte) OR push_bit 8 (drop_bit 24 v) = drop_bit 16 v"
    using byte_split [of 16 v] by simp
  have 1: "ucast (ucast (drop_bit 8 v) :: byte) OR push_bit 8 (drop_bit 16 v) = drop_bit 8 v"
    using byte_split [of 8 v] by simp
  have 0: "ucast (ucast v :: byte) OR push_bit 8 (drop_bit 8 v) = v"
    using byte_split [of 0 v] by simp
  show ?thesis
    unfolding PutUint64_def Uint64.simps 7 6 5 4 3 2 1 0 ..
qed

lemma PutUint64_inj: "PutUint64 v = PutUint64 w \<Longrightarrow> v = w"
  by (metis Uint64_PutUint64)

lemma take8_PutUint64: "take 8 (PutUint64 v) = PutUint64 v"
  by (simp add: PutUint64_def)

lemma Create_eq:
  "Create this tmo (M, cs) =
     ((M\<lparr>lastID := lastID M + 1,
         pending := (pending M)(PutUint64 (lastID M + 1) \<mapsto>
           \<lparr>manager = this, identifier = PutUint64 (lastID M + 1), timeout = tmo,
            reply = length cs\<rparr>)\<rparr>,
       cs @ [\<lparr>cap = 0, buf = []\<rparr>]),
      \<lparr>manager = this, identifier = PutUint64 (lastID M + 1), timeout = tmo,
       reply = length cs\<rparr>)"
  by (simp add: Create_def make_chan_def Let_def take8_PutUint64)

lemma Create_identifier:
  "identifier (snd (Create this t (M, cs))) = PutUint64 (lastID M + 1)"
  by (simp add: Create_def make_chan_def Let_def take8_PutUint64)

lemma Create_lastID:
  "lastID (fst (fst (Create this t (M, cs)))) = lastID M + 1"
  by (simp add: Create_def make_chan_def Let_def)

lemma Creates_identifiers:
  "map identifier (Creates this ts (M, cs))
     = map (\<lambda>k. PutUint64 (lastID M + of_nat (Suc k))) [0..<length ts]"
proof (induction ts arbitrary: M cs)
  case Nil
  show ?case by simp
next
  case (Cons t ts)
  obtain M' cs' r where c: "Create this t (M, cs) = ((M', cs'), r)"
    by (metis surj_pair)
  have r: "identifier r = PutUint64 (lastID M + 1)"
    using Create_identifier [of this t M cs] c by simp
  have l: "lastID M' = lastID M + 1"
    using Create_lastID [of this t M cs] c by simp
  have "map identifier (Creates this ts (M', cs'))
          = map (\<lambda>k. PutUint64 (lastID M + of_nat (Suc (Suc k)))) [0..<length ts]"
    using Cons.IH [of M' cs'] by (simp add: l add.assoc)
  then show ?case
    using c r by (simp add: upt_conv_Cons map_Suc_upt [symmetric] del: upt_Suc)
qed

lemma unat_of_nat_64: "n < 2 ^ 64 \<Longrightarrow> unat (of_nat n :: 64 word) = n"
  by (simp add: unat_of_nat)

lemma Creates_length: "length (Creates this ts st) = length ts"
  by (induction ts arbitrary: st) (auto split: prod.splits)

lemma Creates_fresh_identifiers:
  "map identifier (Creates this ts (NewRequestManager, cs))
     = map (\<lambda>k. PutUint64 (of_nat (Suc k))) [0..<length ts]"
  using Creates_identifiers [of this ts NewRequestManager cs]
  by (simp add: NewRequestManager_def)

lemma Creates_fresh_decoded:
  assumes "length ts < 2 ^ 64"
  shows "map (\<lambda>r. unat (Uint64 (identifier r))) (Creates this ts (NewRequestManager, cs))
           = map Suc [0..<length ts]"
proof -
  have "map (\<lambda>r. unat (Uint64 (identifier r))) (Creates this ts (NewRequestManager, cs))
      = map (\<lambda>i. unat (Uint64 i)) (map identifier (Creates this ts (NewRequestManager, cs)))"
    by simp
  also have "\<dots> = map (\<lambda>k. unat (of_nat (Suc k) :: 64 word)) [0..<length ts]"
    by (simp add: Creates_fresh_identifiers Uint64_PutUint64 comp_def del: of_nat_Suc)
  also have "\<dots> = map Suc [0..<length ts]"
  proof (rule map_cong [OF refl])
    fix k assume "k \<in> set [0..<length ts]"
    then have "Suc k < 2 ^ 64" using assms by simp
    then show "unat (of_nat (Suc k) :: 64 word) = Suc k"
      by (rule unat_of_nat_64)
  qed
  finally show ?thesis .
qed

lemma sorted_wrt_map_Suc_upt: "sorted_wrt (<) (map Suc [0..<n])"
  by (simp add: sorted_wrt_map sorted_wrt_iff_nth_less)

section \<open>What \<open>AwaitReply\<close> returns\<close>

text \<open>
  Claim C8. Whenever \<open>AwaitReply\<close> returns a \<open>nil\<close> error, the payload it returns is
  not \<open>nil\<close>; when the reply received carries neither an error nor a payload, the
  payload returned is an empty \<open>EncodedPayload\<close>.
\<close>

theorem AwaitReply_payload_not_nil:
  "(snd (snd (AwaitReply req c M)) = None \<longrightarrow> fst (snd (AwaitReply req c M)) \<noteq> None)
   \<and> (Error rp = None \<and> Reply rp = None \<longrightarrow>
        snd (AwaitReply req (Recv rp) M) = (Some (EncodedPayload 0), None))"
  by (cases c) (simp_all add: TranslateContextError_def)

theorem AwaitReply_payload_not_nil_witness:
  "snd (snd (AwaitReply \<lparr>manager = 0, identifier = PutUint64 1, timeout = 5, reply = 0\<rparr>
          (Recv \<lparr>Reply = None, Error = (None :: nat error option)\<rparr>) NewRequestManager)) = None
   \<and> fst (snd (AwaitReply \<lparr>manager = 0, identifier = PutUint64 1, timeout = 5, reply = 0\<rparr>
          (Recv \<lparr>Reply = None, Error = (None :: nat error option)\<rparr>) NewRequestManager))
       = Some (EncodedPayload (0 :: nat))"
  using AwaitReply_payload_not_nil
    [where req = "\<lparr>manager = 0, identifier = PutUint64 1, timeout = 5, reply = 0\<rparr>"
       and c = "Recv \<lparr>Reply = (None :: nat EncodedPayload option),
                        Error = (None :: nat error option)\<rparr>"
       and M = NewRequestManager
       and rp = "\<lparr>Reply = (None :: nat EncodedPayload option),
                   Error = (None :: nat error option)\<rparr>"]
  by simp

section \<open>Removal from the table\<close>

text \<open>
  Claim C10. \<open>deregister\<close> of an identifier that is absent leaves the manager as it
  is, and doing it twice is doing it once; so the \<open>deregister\<close> of a timed-out or
  cancelled \<open>AwaitReply\<close> changes nothing when the entry is already gone.
\<close>

theorem deregister_idempotent:
  "(pending M ident = None \<longrightarrow> deregister ident M = M)
   \<and> deregister ident (deregister ident M) = deregister ident M
   \<and> (pending M (identifier req) = None \<longrightarrow>
        fst (AwaitReply req (CtxDone e) M) = M \<and> fst (AwaitReply req TimerC M) = M)"
  by (auto simp add: deregister_def fun_upd_idem)

theorem deregister_idempotent_witness:
  "pending NewRequestManager (PutUint64 1) = None
   \<and> deregister (PutUint64 1) NewRequestManager = NewRequestManager
   \<and> fst (AwaitReply \<lparr>manager = 0, identifier = PutUint64 1, timeout = 5, reply = 0\<rparr>
            (CtxDone Canceled :: (nat, nat) select_case) NewRequestManager) = NewRequestManager"
proof -
  have h: "pending NewRequestManager (PutUint64 1) = None"
    by (simp add: NewRequestManager_def)
  show ?thesis
    using h deregister_idempotent
      [of NewRequestManager "PutUint64 1"
          "\<lparr>manager = 0, identifier = PutUint64 1, timeout = 5, reply = 0\<rparr>" Canceled]
    by simp
qed

section \<open>Steps and schedules\<close>

lemma run_append:
  "run this (evs @ evs') s = (case run this evs s of None \<Rightarrow> None | Some s' \<Rightarrow> run this evs' s')"
  by (induction evs arbitrary: s) (auto split: option.splits)

text \<open>What a step does, case by case.\<close>

lemma exec_cases [consumes 1, case_names Call_Create Call_AwaitReply Again Call_Resolve Lookup_absent
    Lookup_found Handoff Send_buf Recv_buf Select_other Await_removes Await_received Deregister]:
  assumes "exec this ev s = Some s'"
  obtains
    (Call_Create) i tmo r where "ev = Call_Create i tmo" "threads s i = Idle"
      "r = \<lparr>manager = this, identifier = PutUint64 (lastID (mgr s) + 1), timeout = tmo,
            reply = length (chans s)\<rparr>"
      "s' = s\<lparr>mgr := (mgr s)\<lparr>lastID := lastID (mgr s) + 1,
                  pending := (pending (mgr s))(identifier r \<mapsto> r)\<rparr>,
                chans := chans s @ [\<lparr>cap = 0, buf = []\<rparr>],
                threads := (threads s)(i := Create_ret r)\<rparr>"
  | (Call_AwaitReply) i r where "ev = Call_AwaitReply i" "threads s i = Create_ret r"
      "manager r = this" "s' = s\<lparr>threads := (threads s)(i := Await_select r)\<rparr>"
  | (Again) i r c p e where "ev = Call_AwaitReply_again i" "threads s i = Await_ret r c p e"
      "s' = s\<lparr>threads := (threads s)(i := Await_select r)\<rparr>"
  | (Call_Resolve) i ident res where
      "ev = (case res of Fulfill p \<Rightarrow> Call_Fulfill i ident p | Fail e \<Rightarrow> Call_Fail i ident e)"
      "threads s i = Idle"
      "s' = s\<lparr>threads := (threads s)(i := Resolve_lookup ident res)\<rparr>"
  | (Lookup_absent) i ident res where "ev = Lookup i" "threads s i = Resolve_lookup ident res"
      "pending (mgr s) ident = None"
      "s' = s\<lparr>threads := (threads s)(i := Resolve_ret ident res False)\<rparr>"
  | (Lookup_found) i ident res req where "ev = Lookup i"
      "threads s i = Resolve_lookup ident res" "pending (mgr s) ident = Some req"
      "s' = s\<lparr>threads := (threads s)(i := Resolve_send ident res req)\<rparr>"
  | (Handoff) i j ident res req r where "ev = Handoff i j"
      "threads s i = Resolve_send ident res req" "threads s j = Await_select r"
      "reply req = reply r" "reply r < length (chans s)" "buf (chans s ! reply r) = []"
      "s' = s\<lparr>threads := (threads s)(i := Resolve_dereg ident res,
                                       j := Await_case r (Recv (reply_of res)))\<rparr>"
  | (Send_buf) i ident res req where "ev = Send_buf i"
      "threads s i = Resolve_send ident res req" "reply req < length (chans s)"
      "length (buf (chans s ! reply req)) < cap (chans s ! reply req)"
      "s' = s\<lparr>chans := (chans s)[reply req := (chans s ! reply req)
                           \<lparr>buf := buf (chans s ! reply req) @ [reply_of res]\<rparr>],
                threads := (threads s)(i := Resolve_dereg ident res)\<rparr>"
  | (Recv_buf) j r v vs where "ev = Recv_buf j" "threads s j = Await_select r"
      "reply r < length (chans s)" "buf (chans s ! reply r) = v # vs"
      "s' = s\<lparr>chans := (chans s)[reply r := (chans s ! reply r)\<lparr>buf := vs\<rparr>],
                threads := (threads s)(j := Await_case r (Recv v))\<rparr>"
  | (Select_other) j r c where "ev = (case c of CtxDone e \<Rightarrow> Ctx_Done j e | _ \<Rightarrow> Timer j)"
      "c \<noteq> TimerC \<longrightarrow> (\<exists>e. c = CtxDone e)"
      "threads s j = Await_select r"
      "s' = s\<lparr>threads := (threads s)(j := Await_case r c)\<rparr>"
  | (Await_removes) j r c p e where "ev = Await_body j" "threads s j = Await_case r c"
      "c \<noteq> TimerC \<longrightarrow> (\<exists>e. c = CtxDone e)" "snd (AwaitReply r c (mgr s)) = (p, e)"
      "s' = s\<lparr>mgr := deregister (identifier r) (mgr s),
                threads := (threads s)(j := Await_ret r c p e)\<rparr>"
  | (Await_received) j r rp p e where "ev = Await_body j"
      "threads s j = Await_case r (Recv rp)" "snd (AwaitReply r (Recv rp) (mgr s)) = (p, e)"
      "s' = s\<lparr>threads := (threads s)(j := Await_ret r (Recv rp) p e)\<rparr>"
  | (Deregister) i ident res where "ev = Deregister i"
      "threads s i = Resolve_dereg ident res"
      "s' = s\<lparr>mgr := deregister ident (mgr s),
                threads := (threads s)(i := Resolve_ret ident res True)\<rparr>"
proof (cases ev)
  case (Call_Create i tmo)
  with assms show ?thesis
    by (intro that(1) [of i tmo]) (auto simp add: Create_eq split: thread.splits)
next
  case (Call_AwaitReply i)
  with assms show ?thesis
    by (auto split: thread.splits if_splits intro: that(2))
next
  case (Call_AwaitReply_again i)
  with assms show ?thesis
    by (auto split: thread.splits intro: that(3))
next
  case (Call_Fulfill i ident p)
  with assms show ?thesis
    using that(4) [where res = "Fulfill p"] by (auto split: thread.splits)
next
  case (Call_Fail i ident e)
  with assms show ?thesis
    using that(4) [where res = "Fail e"] by (auto split: thread.splits)
next
  case (Lookup i)
  with assms show ?thesis
    by (auto split: thread.splits option.splits intro: that(5) that(6))
next
  case (Handoff i j)
  with assms show ?thesis
    by (auto split: thread.splits if_splits intro: that(7))
next
  case (Send_buf i)
  with assms show ?thesis
    by (auto split: thread.splits if_splits intro: that(8))
next
  case (Recv_buf j)
  with assms show ?thesis
    by (auto split: thread.splits if_splits list.splits intro: that(9))
next
  case (Ctx_Done j e)
  with assms show ?thesis
    using that(10) [where c = "CtxDone e"] by (auto split: thread.splits)
next
  case (Timer j)
  with assms show ?thesis
    using that(10) [where c = TimerC] by (auto split: thread.splits)
next
  case (Await_body j)
  with assms obtain r c where t: "threads s j = Await_case r c"
    by (auto split: thread.splits)
  show ?thesis
  proof (cases c)
    case (Recv rp)
    with assms Await_body t show ?thesis
      by (auto split: if_splits intro: that(12))
  next
    case (CtxDone e)
    with assms Await_body t show ?thesis
      by (auto intro: that(11))
  next
    case TimerC
    with assms Await_body t show ?thesis
      by (auto intro: that(11))
  qed
next
  case (Deregister i)
  with assms show ?thesis
    by (auto split: thread.splits intro: that(13))
qed

text \<open>The schedules of the two threads end in the states named above.\<close>

lemma all_idle_eq: "all_idle = (\<lambda>i. Idle)"
  by (rule ext) (simp add: all_idle_def)

lemma run_sched_found:
  "run 0 sched_found init = Some cfg_found"
  by (simp add: sched_found_def init_def NewRequestManager_def Create_eq id1_def req1_def all_idle_eq cfg_found_def cfg_reply_def cfg_resolved_def cfg_second_resolver_def cfg_timeout_def cfg_cancel_def)

lemma run_sched_reply:
  "run 0 sched_reply init = Some cfg_reply"
  by (simp add: sched_reply_def run_append run_sched_found req1_def all_idle_eq cfg_found_def cfg_reply_def cfg_resolved_def cfg_second_resolver_def cfg_timeout_def cfg_cancel_def fun_upd_twist)

lemma run_sched_resolved:
  "run 0 sched_resolved init = Some cfg_resolved"
  by (simp add: sched_resolved_def run_append run_sched_reply deregister_def req1_def all_idle_eq cfg_reply_def cfg_resolved_def)

lemma run_sched_second_resolver:
  "run 0 sched_second_resolver init = Some cfg_second_resolver"
  by (simp add: sched_second_resolver_def run_append run_sched_resolved all_idle_eq cfg_resolved_def cfg_second_resolver_def)

lemma run_sched_timeout:
  "run 0 sched_timeout init = Some cfg_timeout"
  by (simp add: sched_timeout_def run_append run_sched_found deregister_def NewTimeoutErr_def
        req1_def all_idle_eq cfg_found_def cfg_reply_def cfg_resolved_def cfg_second_resolver_def cfg_timeout_def cfg_cancel_def fun_upd_twist)

lemma run_sched_cancel:
  "run 0 sched_cancel init = Some cfg_cancel"
  by (simp add: sched_cancel_def run_append run_sched_found deregister_def
        TranslateContextError_def req1_def all_idle_eq cfg_found_def cfg_reply_def cfg_resolved_def cfg_second_resolver_def cfg_timeout_def cfg_cancel_def fun_upd_twist)

lemma cfg_found_simps:
  "mgr cfg_found = \<lparr>lastID = 1, pending = [id1 \<mapsto> req1]\<rparr>"
  "chans cfg_found = [\<lparr>cap = 0, buf = []\<rparr>]"
  "threads cfg_found 0 = Await_select req1"
  "threads cfg_found 1 = Resolve_send id1 (Fulfill 7) req1"
  "threads cfg_found (Suc 0) = Resolve_send id1 (Fulfill 7) req1"
  by (simp_all add: cfg_found_def)

lemma cfg_resolved_simps:
  "mgr cfg_resolved = \<lparr>lastID = 1, pending = Map.empty\<rparr>"
  "chans cfg_resolved = [\<lparr>cap = 0, buf = []\<rparr>]"
  "threads cfg_resolved 0
     = Await_ret req1 (Recv (reply_of (Fulfill 7))) (Some (EncodedPayload 7)) None"
  "threads cfg_resolved 1 = Resolve_ret id1 (Fulfill 7) True"
  "threads cfg_resolved (Suc 0) = Resolve_ret id1 (Fulfill 7) True"
  "threads cfg_resolved 2 = Idle"
  by (simp_all add: cfg_resolved_def all_idle_def)

lemma cfg_second_resolver_simps:
  "mgr cfg_second_resolver = \<lparr>lastID = 1, pending = Map.empty\<rparr>"
  "chans cfg_second_resolver = [\<lparr>cap = 0, buf = []\<rparr>]"
  "threads cfg_second_resolver 0
     = Await_ret req1 (Recv (reply_of (Fulfill 7))) (Some (EncodedPayload 7)) None"
  "threads cfg_second_resolver 1 = Resolve_ret id1 (Fulfill 7) True"
  "threads cfg_second_resolver (Suc 0) = Resolve_ret id1 (Fulfill 7) True"
  "threads cfg_second_resolver 2 = Resolve_lookup id1 (Fail None)"
  by (simp_all add: cfg_second_resolver_def cfg_resolved_simps)

lemma cfg_reply_simps:
  "mgr cfg_reply = \<lparr>lastID = 1, pending = [id1 \<mapsto> req1]\<rparr>"
  "chans cfg_reply = [\<lparr>cap = 0, buf = []\<rparr>]"
  "threads cfg_reply 0
     = Await_ret req1 (Recv (reply_of (Fulfill 7))) (Some (EncodedPayload 7)) None"
  "threads cfg_reply 1 = Resolve_dereg id1 (Fulfill 7)"
  "threads cfg_reply (Suc 0) = Resolve_dereg id1 (Fulfill 7)"
  by (simp_all add: cfg_reply_def)

lemma cfg_timeout_simps:
  "mgr cfg_timeout = \<lparr>lastID = 1, pending = Map.empty\<rparr>"
  "chans cfg_timeout = [\<lparr>cap = 0, buf = []\<rparr>]"
  "threads cfg_timeout 0
     = Await_ret req1 TimerC (Some (EncodedPayload 0)) (Some (TimeoutErr ''timed out''))"
  "threads cfg_timeout 1 = Resolve_send id1 (Fulfill 7) req1"
  "threads cfg_timeout (Suc 0) = Resolve_send id1 (Fulfill 7) req1"
  by (simp_all add: cfg_timeout_def)

lemma cfg_cancel_simps:
  "mgr cfg_cancel = \<lparr>lastID = 1, pending = Map.empty\<rparr>"
  "chans cfg_cancel = [\<lparr>cap = 0, buf = []\<rparr>]"
  "threads cfg_cancel 0
     = Await_ret req1 (CtxDone Canceled) None (Some (CanceledErr Canceled))"
  "threads cfg_cancel 1 = Resolve_send id1 (Fulfill 7) req1"
  "threads cfg_cancel (Suc 0) = Resolve_send id1 (Fulfill 7) req1"
  by (simp_all add: cfg_cancel_def)




lemma run_sched_double_await: "run 0 sched_double_await init = Some cfg_double_await"
  by (simp add: sched_double_await_def init_def NewRequestManager_def Create_eq id1_def
        req1_def all_idle_eq cfg_double_await_def deregister_def fun_upd_twist)

lemma cfg_double_await_simps:
  "threads cfg_double_await 0
     = Await_ret req1 (Recv (reply_of (Fail None))) (Some (EncodedPayload 0)) None"
  "threads cfg_double_await 1 = Resolve_ret id1 (Fulfill 7) True"
  "threads cfg_double_await (Suc 0) = Resolve_ret id1 (Fulfill 7) True"
  "threads cfg_double_await 2 = Resolve_ret id1 (Fail None) True"
  "mgr cfg_double_await = \<lparr>lastID = 1, pending = Map.empty\<rparr>"
  by (simp_all add: cfg_double_await_def)

section \<open>Identifiers in a schedule\<close>

lemma exec_lastID:
  assumes "exec this ev s = Some s'"
  shows "lastID (mgr s') = lastID (mgr s) + (if is_Create ev then 1 else 0)"
  using assms
  by (cases rule: exec_cases)
     (auto simp add: deregister_def split: resolver.splits select_case.splits)

lemma run_lastID:
  "run this evs s = Some s' \<Longrightarrow> lastID (mgr s') = lastID (mgr s) + of_nat (creations evs)"
proof (induction evs arbitrary: s)
  case Nil
  then show ?case by (simp add: creations_def)
next
  case (Cons ev evs)
  from Cons.prems obtain s1 where s1: "exec this ev s = Some s1" "run this evs s1 = Some s'"
    by (auto split: option.splits)
  have "lastID (mgr s') = lastID (mgr s1) + of_nat (creations evs)"
    by (rule Cons.IH [OF s1(2)])
  then show ?case
    using exec_lastID [OF s1(1)] by (simp add: creations_def)
qed

text \<open>
  Claim C6. On a fresh manager the \<open>k\<close>-th call of \<open>Create\<close> returns the identifier
  that is the 8-byte little-endian encoding of the 64-bit value \<open>k\<close>; and when fewer
  than \<open>2^64\<close> calls are made, the identifiers are pairwise distinct and, read back as
  little-endian numbers, strictly increasing. \<open>Create\<close> runs under the write lock, so
  concurrent calls are serialised: they are the successive calls of \<open>Creates\<close>. The same
  holds in every schedule: after any steps with \<open>k\<close> calls of \<open>Create\<close> among them, the
  next \<open>Create\<close> returns the identifier of \<open>k + 1\<close>.
\<close>

theorem Create_identifier_allocation:
  "(\<forall>k < length ts.
      identifier (Creates this ts (NewRequestManager, cs) ! k) = PutUint64 (of_nat (k + 1)))
   \<and> (length ts < 2 ^ 64 \<longrightarrow>
        distinct (map identifier (Creates this ts (NewRequestManager, cs)))
        \<and> sorted_wrt (<) (map (\<lambda>r. unat (Uint64 (identifier r)))
                               (Creates this ts (NewRequestManager, cs))))
   \<and> (run this evs init = Some s \<and> threads s i = Idle \<longrightarrow>
        (\<exists>s' r. exec this (Call_Create i tmo) s = Some s' \<and> threads s' i = Create_ret r
           \<and> identifier r = PutUint64 (of_nat (creations evs + 1))))"
proof (intro conjI allI impI)
  fix k assume k: "k < length ts"
  have "identifier (Creates this ts (NewRequestManager, cs) ! k)
      = map identifier (Creates this ts (NewRequestManager, cs)) ! k"
    using k by (simp add: Creates_length)
  also have "\<dots> = PutUint64 (of_nat (Suc k))"
    using k by (simp only: Creates_fresh_identifiers) simp
  finally show "identifier (Creates this ts (NewRequestManager, cs) ! k)
      = PutUint64 (of_nat (k + 1))" by simp
next
  assume n: "length ts < 2 ^ 64"
  let ?rs = "Creates this ts (NewRequestManager, cs)"
  have dec: "map (\<lambda>r. unat (Uint64 (identifier r))) ?rs = map Suc [0..<length ts]"
    using n by (rule Creates_fresh_decoded)
  show s: "sorted_wrt (<) (map (\<lambda>r. unat (Uint64 (identifier r))) ?rs)"
    unfolding dec by (rule sorted_wrt_map_Suc_upt)
  have "distinct (map (\<lambda>r. unat (Uint64 (identifier r))) ?rs)"
    unfolding dec by (simp add: distinct_map)
  then have "distinct (map (\<lambda>i. unat (Uint64 i)) (map identifier ?rs))"
    by (simp add: comp_def)
  then show "distinct (map identifier ?rs)"
    by (rule distinct_map [THEN iffD1, THEN conjunct1])
next
  assume a: "run this evs init = Some s \<and> threads s i = Idle"
  then have "lastID (mgr s) = of_nat (creations evs)"
    using run_lastID [of this evs init s] by (simp add: init_def NewRequestManager_def)
  then show "\<exists>s' r. exec this (Call_Create i tmo) s = Some s' \<and> threads s' i = Create_ret r
           \<and> identifier r = PutUint64 (of_nat (creations evs + 1))"
    using a by (simp add: Create_eq add.commute)
qed

theorem Create_identifier_allocation_witness:
  "identifier (Creates 0 [5, 7, 9] (NewRequestManager, ([] :: nat chan list)) ! 0)
     = PutUint64 (of_nat (0 + 1))
   \<and> identifier (Creates 0 [5, 7, 9] (NewRequestManager, ([] :: nat chan list)) ! 1)
     = PutUint64 (of_nat (1 + 1))
   \<and> identifier (Creates 0 [5, 7, 9] (NewRequestManager, ([] :: nat chan list)) ! 2)
     = PutUint64 (of_nat (2 + 1))
   \<and> length [5, 7, 9 :: Duration] < 2 ^ 64
   \<and> distinct (map identifier (Creates 0 [5, 7, 9] (NewRequestManager, ([] :: nat chan list))))
   \<and> sorted_wrt (<) (map (\<lambda>r. unat (Uint64 (identifier r)))
        (Creates 0 [5, 7, 9] (NewRequestManager, ([] :: nat chan list))))
   \<and> map identifier (Creates 0 [5, 7, 9] (NewRequestManager, ([] :: nat chan list)))
     = [PutUint64 1, PutUint64 2, PutUint64 3]
   \<and> PutUint64 1 = [1, 0, 0, 0, 0, 0, 0, 0] \<and> PutUint64 2 = [2, 0, 0, 0, 0, 0, 0, 0]
   \<and> PutUint64 3 = [3, 0, 0, 0, 0, 0, 0, 0]
   \<and> run 0 sched_resolved init = Some cfg_resolved \<and> threads cfg_resolved 2 = Idle
   \<and> creations sched_resolved = 1
   \<and> exec 0 (Call_Create 2 9) cfg_resolved
       = Some (cfg_resolved
           \<lparr>mgr := \<lparr>lastID = 2,
                     pending = [PutUint64 2 \<mapsto> \<lparr>manager = 0, identifier = PutUint64 2,
                                                timeout = 9, reply = 1\<rparr>]\<rparr>,
             chans := [\<lparr>cap = 0, buf = []\<rparr>, \<lparr>cap = 0, buf = []\<rparr>],
             threads := (threads cfg_resolved)
               (2 := Create_ret \<lparr>manager = 0, identifier = PutUint64 2, timeout = 9,
                                 reply = 1\<rparr>)\<rparr>)"
proof -
  have h: "length [5, 7, 9 :: Duration] < 2 ^ 64" by simp
  have v: "map identifier (Creates 0 [5, 7, 9] (NewRequestManager, ([] :: nat chan list)))
     = [PutUint64 1, PutUint64 2, PutUint64 3]"
    by (simp add: Create_eq NewRequestManager_def)
  have b: "PutUint64 1 = [1, 0, 0, 0, 0, 0, 0, 0]" "PutUint64 2 = [2, 0, 0, 0, 0, 0, 0, 0]"
    "PutUint64 3 = [3, 0, 0, 0, 0, 0, 0, 0]"
    by (simp_all add: PutUint64_def)
  have t: "(\<forall>k < length [5, 7, 9 :: Duration].
      identifier (Creates 0 [5, 7, 9] (NewRequestManager, ([] :: nat chan list)) ! k)
        = PutUint64 (of_nat (k + 1)))
   \<and> (length [5, 7, 9 :: Duration] < 2 ^ 64 \<longrightarrow>
        distinct (map identifier (Creates 0 [5, 7, 9] (NewRequestManager, ([] :: nat chan list))))
        \<and> sorted_wrt (<) (map (\<lambda>r. unat (Uint64 (identifier r)))
                               (Creates 0 [5, 7, 9] (NewRequestManager, ([] :: nat chan list)))))
   \<and> (run 0 sched_resolved init = Some cfg_resolved \<and> threads cfg_resolved 2 = Idle \<longrightarrow>
        (\<exists>s' r. exec 0 (Call_Create 2 9) cfg_resolved = Some s' \<and> threads s' 2 = Create_ret r
           \<and> identifier r = PutUint64 (of_nat (creations sched_resolved + 1))))"
    by (rule Create_identifier_allocation)
  have l: "(0::nat) < length [5, 7, 9 :: Duration]" "(1::nat) < length [5, 7, 9 :: Duration]"
    "(2::nat) < length [5, 7, 9 :: Duration]" by simp_all
  have c: "creations sched_resolved = 1"
    by (simp add: creations_def sched_resolved_def sched_reply_def sched_found_def)
  have e: "exec 0 (Call_Create 2 9) cfg_resolved
       = Some (cfg_resolved
           \<lparr>mgr := \<lparr>lastID = 2,
                     pending = [PutUint64 2 \<mapsto> \<lparr>manager = 0, identifier = PutUint64 2,
                                                timeout = 9, reply = 1\<rparr>]\<rparr>,
             chans := [\<lparr>cap = 0, buf = []\<rparr>, \<lparr>cap = 0, buf = []\<rparr>],
             threads := (threads cfg_resolved)
               (2 := Create_ret \<lparr>manager = 0, identifier = PutUint64 2, timeout = 9,
                                 reply = 1\<rparr>)\<rparr>)"
    by (simp add: cfg_resolved_simps Create_eq)
  show ?thesis
    using t h v l b c e run_sched_resolved cfg_resolved_simps(6) by blast
qed

section \<open>The table and its handles\<close>

lemma handle_consistent_exec:
  assumes "handle_consistent this s" and "exec this ev s = Some s'"
  shows "handle_consistent this s'"
  using assms(2) assms(1)
  by (cases rule: exec_cases)
     (auto simp add: handle_consistent_def deregister_def split: if_splits)

lemma handle_consistent_init: "handle_consistent this init"
  by (simp add: handle_consistent_def init_def NewRequestManager_def)

lemma handle_consistent_run:
  "handle_consistent this s \<Longrightarrow> run this evs s = Some s' \<Longrightarrow> handle_consistent this s'"
  by (induction evs arbitrary: s) (auto split: option.splits intro: handle_consistent_exec)

text \<open>
  Claim C9. Every key of the pending table maps to a request whose identifier is that
  key and whose manager field is the address of this manager: this holds in every state
  reached from the start by any schedule of steps of \<open>Create\<close>, \<open>Fulfill\<close>, \<open>Fail\<close> and
  \<open>AwaitReply\<close> (with its \<open>deregister\<close>), and every step preserves it.
\<close>

theorem handle_table_consistency:
  "(handle_consistent this s \<and> exec this ev s = Some s' \<longrightarrow> handle_consistent this s')
   \<and> (run this evs init = Some s'' \<longrightarrow> handle_consistent this s'')"
  using handle_consistent_exec handle_consistent_run handle_consistent_init by blast

theorem handle_table_consistency_witness:
  "handle_consistent 0 cfg_reply
   \<and> exec 0 (Deregister 1) cfg_reply = Some cfg_resolved
   \<and> handle_consistent 0 cfg_resolved
   \<and> run 0 sched_found init = Some cfg_found
   \<and> handle_consistent 0 cfg_found
   \<and> pending (mgr cfg_found) id1 = Some req1
   \<and> identifier req1 = id1 \<and> manager req1 = 0"
proof -
  have a: "handle_consistent 0 cfg_reply"
    by (simp add: handle_consistent_def cfg_reply_simps req1_def)
  have b: "exec 0 (Deregister 1) cfg_reply = Some cfg_resolved"
    by (simp add: cfg_reply_def cfg_resolved_def deregister_def)
  have c: "pending (mgr cfg_found) id1 = Some req1" "identifier req1 = id1" "manager req1 = 0"
    by (simp_all add: cfg_found_simps req1_def)
  show ?thesis
    using a b c run_sched_found
      handle_table_consistency [of 0 cfg_reply "Deregister 1" cfg_resolved sched_found cfg_found]
    by blast
qed

section \<open>\<open>Fulfill\<close> and \<open>Fail\<close> of an identifier that is not pending\<close>

text \<open>
  Claim C5. When the identifier is not in the pending table at the lookup, \<open>Fulfill\<close> and
  \<open>Fail\<close> return \<open>false\<close> and nothing else changes: the manager (its table and its
  counter), the channels and every other thread are as before.
\<close>

theorem resolve_absent_noop:
  "pending (mgr s) ident = None \<longrightarrow>
     (threads s i = Resolve_lookup ident res \<longrightarrow>
        exec this (Lookup i) s
          = Some (s\<lparr>threads := (threads s)(i := Resolve_ret ident res False)\<rparr>))
     \<and> (threads s i = Idle \<longrightarrow>
          run this [Call_Fulfill i ident payload, Lookup i] s
            = Some (s\<lparr>threads := (threads s)(i := Resolve_ret ident (Fulfill payload) False)\<rparr>)
          \<and> run this [Call_Fail i ident err, Lookup i] s
            = Some (s\<lparr>threads := (threads s)(i := Resolve_ret ident (Fail err) False)\<rparr>))"
  by simp

theorem resolve_absent_noop_witness:
  "pending (mgr cfg_resolved) id1 = None
   \<and> threads cfg_resolved 2 = Idle
   \<and> run 0 [Call_Fulfill 2 id1 9, Lookup 2] cfg_resolved
       = Some (cfg_resolved\<lparr>threads := (threads cfg_resolved)
                 (2 := Resolve_ret id1 (Fulfill 9) False)\<rparr>)
   \<and> run 0 [Call_Fail 2 id1 None, Lookup 2] cfg_resolved
       = Some (cfg_resolved\<lparr>threads := (threads cfg_resolved)
                 (2 := Resolve_ret id1 (Fail None) False)\<rparr>)
   \<and> pending (mgr cfg_second_resolver) id1 = None
   \<and> threads cfg_second_resolver 2 = Resolve_lookup id1 (Fail None)
   \<and> exec 0 (Lookup 2) cfg_second_resolver
       = Some (cfg_second_resolver\<lparr>threads := (threads cfg_second_resolver)
                 (2 := Resolve_ret id1 (Fail None) False)\<rparr>)"
proof -
  have a: "pending (mgr cfg_resolved) id1 = None" "threads cfg_resolved 2 = Idle"
    by (simp_all add: cfg_resolved_simps)
  have b: "pending (mgr cfg_second_resolver) id1 = None"
    "threads cfg_second_resolver 2 = Resolve_lookup id1 (Fail None)"
    by (simp_all add: cfg_second_resolver_simps)
  show ?thesis
    using a b
      resolve_absent_noop [where s = cfg_resolved and ident = id1 and i = 2 and this = 0
        and payload = 9 and err = None]
      resolve_absent_noop [where s = cfg_second_resolver and ident = id1 and i = 2
        and this = 0 and res = "Fail None"]
    by blast
qed

section \<open>The reply channel\<close>

text \<open>
  Claim C3, as amended. For every timeout, the request returned by \<open>Create\<close> has a newly
  made reply channel (at the next free address) of capacity zero with nothing buffered;
  so the send of \<open>Fulfill\<close> or \<open>Fail\<close> on it goes on only by a hand-over to an
  \<open>AwaitReply\<close> blocked in its \<open>select\<close> on that channel, and blocks until then.
\<close>

theorem Create_reply_channel_unbuffered:
  "(Create this tmo (M, cs) = ((M', cs'), r) \<longrightarrow>
      reply r = length cs \<and> cs' = cs @ [\<lparr>cap = 0, buf = []\<rparr>]
      \<and> cap (cs' ! reply r) = 0 \<and> buf (cs' ! reply r) = [])
   \<and> (exec this ev s = Some s' \<and> threads s i = Resolve_send ident res req
        \<and> reply req < length (chans s) \<and> cap (chans s ! reply req) = 0
        \<and> threads s' i \<noteq> threads s i \<longrightarrow>
        (\<exists>j r'. ev = Handoff i j \<and> threads s j = Await_select r' \<and> reply r' = reply req
           \<and> threads s' i = Resolve_dereg ident res
           \<and> threads s' j = Await_case r' (Recv (reply_of res))))"
proof (intro conjI impI)
  assume "Create this tmo (M, cs) = ((M', cs'), r)"
  then have "reply r = length cs" "cs' = cs @ [\<lparr>cap = 0, buf = []\<rparr>]"
    by (auto simp add: Create_eq)
  then show "reply r = length cs" "cs' = cs @ [\<lparr>cap = 0, buf = []\<rparr>]"
    "cap (cs' ! reply r) = 0" "buf (cs' ! reply r) = []"
    by simp_all
next
  assume a: "exec this ev s = Some s' \<and> threads s i = Resolve_send ident res req
        \<and> reply req < length (chans s) \<and> cap (chans s ! reply req) = 0
        \<and> threads s' i \<noteq> threads s i"
  then have e: "exec this ev s = Some s'" by simp
  from e a show "\<exists>j r'. ev = Handoff i j \<and> threads s j = Await_select r' \<and> reply r' = reply req
           \<and> threads s' i = Resolve_dereg ident res
           \<and> threads s' j = Await_case r' (Recv (reply_of res))"
    by (cases rule: exec_cases) (auto split: if_splits)
qed

theorem Create_reply_channel_unbuffered_witness:
  "Create 0 5 (NewRequestManager, ([] :: (nat, nat) reply chan list))
     = ((\<lparr>lastID = 1, pending = [id1 \<mapsto> req1]\<rparr>, [\<lparr>cap = 0, buf = []\<rparr>]), req1)
   \<and> reply req1 = length ([] :: (nat, nat) reply chan list)
   \<and> cap ([\<lparr>cap = 0, buf = ([] :: (nat, nat) reply list)\<rparr>] ! reply req1) = 0
   \<and> exec 0 (Handoff 1 0) cfg_found
       = Some (cfg_found\<lparr>threads := (threads cfg_found)
                 (1 := Resolve_dereg id1 (Fulfill 7),
                  0 := Await_case req1 (Recv (reply_of (Fulfill 7))))\<rparr>)
   \<and> threads cfg_found 1 = Resolve_send id1 (Fulfill 7) req1
   \<and> reply req1 < length (chans cfg_found) \<and> cap (chans cfg_found ! reply req1) = 0
   \<and> threads cfg_found 0 = Await_select req1"
proof -
  have c: "Create 0 5 (NewRequestManager, ([] :: (nat, nat) reply chan list))
     = ((\<lparr>lastID = 1, pending = [id1 \<mapsto> req1]\<rparr>, [\<lparr>cap = 0, buf = []\<rparr>]), req1)"
    by (simp add: Create_eq NewRequestManager_def id1_def req1_def)
  have e: "exec 0 (Handoff 1 0) cfg_found
       = Some (cfg_found\<lparr>threads := (threads cfg_found)
                 (1 := Resolve_dereg id1 (Fulfill 7),
                  0 := Await_case req1 (Recv (reply_of (Fulfill 7))))\<rparr>)"
    by (simp add: cfg_found_simps req1_def)
  have h: "threads cfg_found 1 = Resolve_send id1 (Fulfill 7) req1"
    "reply req1 < length (chans cfg_found)" "cap (chans cfg_found ! reply req1) = 0"
    "threads cfg_found 0 = Await_select req1"
    by (simp_all add: cfg_found_simps req1_def)
  have n: "threads (cfg_found\<lparr>threads := (threads cfg_found)
                 (1 := Resolve_dereg id1 (Fulfill 7),
                  0 := Await_case req1 (Recv (reply_of (Fulfill 7))))\<rparr>) 1
           \<noteq> threads cfg_found 1"
    by (simp add: cfg_found_simps)
  show ?thesis
    using c e h n
      Create_reply_channel_unbuffered [where this = 0 and tmo = 5 and M = NewRequestManager
        and cs = "[] :: (nat, nat) reply chan list" and r = req1 and ev = "Handoff 1 0"
        and s = cfg_found and i = 1 and ident = id1 and res = "Fulfill 7" and req = req1]
    by simp
qed

text \<open>
  As the spec states it, C3 fails: the capacity is 0, not 1, and the writer can block for
  ever. After \<open>sched_timeout\<close> the \<open>Fulfill\<close> of thread 1 is in its send and no step
  of it is enabled.
\<close>

theorem Create_capacity_one_counterexample:
  "cap (snd (fst (Create 0 5 (NewRequestManager, ([] :: (nat, nat) reply chan list))))
         ! reply (snd (Create 0 5 (NewRequestManager, ([] :: (nat, nat) reply chan list)))))
     \<noteq> 1
   \<and> run 0 sched_timeout init = Some cfg_timeout
   \<and> threads cfg_timeout 1 = Resolve_send id1 (Fulfill 7) req1
   \<and> exec 0 (Send_buf 1) cfg_timeout = None
   \<and> exec 0 (Handoff 1 0) cfg_timeout = None"
  by (simp add: Create_eq run_sched_timeout) (simp add: cfg_timeout_def req1_def all_idle_def)

section \<open>Which call removes the entry\<close>

text \<open>
  Claim C7, as amended. When \<open>AwaitReply\<close> returns by the timeout path or by the
  cancellation path, it has removed the entry of its identifier, so \<open>IsPending\<close> is false
  right after the return. On the reply path \<open>AwaitReply\<close> leaves the table as it is: the
  entry is removed by the \<open>Fulfill\<close> or \<open>Fail\<close> that sent the reply, in its \<open>deregister\<close>
  after the hand-over, and \<open>IsPending\<close> is false once that call has returned \<open>true\<close>.
\<close>

theorem AwaitReply_removal_by_path:
  "(threads s j = Await_case r TimerC \<longrightarrow>
      exec this (Await_body j) s
        = Some (s\<lparr>mgr := deregister (identifier r) (mgr s),
                  threads := (threads s)(j := Await_ret r TimerC (Some (EncodedPayload 0))
                                                (Some (TimeoutErr ''timed out'')))\<rparr>)
      \<and> \<not> IsPending (deregister (identifier r) (mgr s)) (identifier r))
   \<and> (threads s j = Await_case r (CtxDone e) \<longrightarrow>
      exec this (Await_body j) s
        = Some (s\<lparr>mgr := deregister (identifier r) (mgr s),
                  threads := (threads s)(j := Await_ret r (CtxDone e) None
                                                (Some (CanceledErr e)))\<rparr>)
      \<and> \<not> IsPending (deregister (identifier r) (mgr s)) (identifier r))
   \<and> (threads s j = Await_case r (Recv rp) \<longrightarrow>
      exec this (Await_body j) s
        = Some (s\<lparr>threads := (threads s)
                  (j := Await_ret r (Recv rp) (fst (snd (AwaitReply r (Recv rp) (mgr s))))
                          (snd (snd (AwaitReply r (Recv rp) (mgr s)))))\<rparr>))
   \<and> (threads s i = Resolve_dereg ident res \<longrightarrow>
      exec this (Deregister i) s
        = Some (s\<lparr>mgr := deregister ident (mgr s),
                  threads := (threads s)(i := Resolve_ret ident res True)\<rparr>)
      \<and> \<not> IsPending (deregister ident (mgr s)) ident)"
  by (simp add: IsPending_def deregister_def NewTimeoutErr_def TranslateContextError_def)

theorem AwaitReply_removal_by_path_witness:
  "threads (cfg_found\<lparr>threads := (threads cfg_found)(0 := Await_case req1 TimerC)\<rparr>) 0
     = Await_case req1 TimerC
   \<and> IsPending (mgr cfg_found) (identifier req1)
   \<and> exec 0 (Await_body 0)
        (cfg_found\<lparr>threads := (threads cfg_found)(0 := Await_case req1 TimerC)\<rparr>)
       = Some cfg_timeout
   \<and> \<not> IsPending (mgr cfg_timeout) (identifier req1)
   \<and> threads cfg_reply 1 = Resolve_dereg id1 (Fulfill 7)
   \<and> exec 0 (Deregister 1) cfg_reply = Some cfg_resolved
   \<and> \<not> IsPending (mgr cfg_resolved) id1"
proof -
  let ?s = "cfg_found\<lparr>threads := (threads cfg_found)(0 := Await_case req1 TimerC)\<rparr>"
  have a: "threads ?s 0 = Await_case req1 TimerC" by simp
  have b: "threads cfg_reply 1 = Resolve_dereg id1 (Fulfill 7)"
    by (simp add: cfg_reply_simps)
  have c: "?s\<lparr>mgr := deregister (identifier req1) (mgr ?s),
              threads := (threads ?s)(0 := Await_ret req1 TimerC (Some (EncodedPayload 0))
                                            (Some (TimeoutErr ''timed out'')))\<rparr> = cfg_timeout"
    by (simp add: cfg_found_def cfg_timeout_def deregister_def req1_def fun_upd_twist)
  have d: "cfg_reply\<lparr>mgr := deregister id1 (mgr cfg_reply),
              threads := (threads cfg_reply)(1 := Resolve_ret id1 (Fulfill 7) True)\<rparr>
           = cfg_resolved"
    by (simp add: cfg_reply_def cfg_resolved_def deregister_def)
  have p: "IsPending (mgr cfg_found) (identifier req1)"
    "\<not> IsPending (mgr cfg_timeout) (identifier req1)" "\<not> IsPending (mgr cfg_resolved) id1"
    by (simp_all add: IsPending_def cfg_found_simps cfg_timeout_simps cfg_resolved_simps req1_def)
  show ?thesis
    using a b p
      AwaitReply_removal_by_path [where s = ?s and j = 0 and r = req1 and this = 0]
      AwaitReply_removal_by_path [where s = cfg_reply and i = 1 and ident = id1
        and res = "Fulfill 7" and this = 0]
    unfolding c d by blast
qed

text \<open>
  As the spec states it, C7 fails on the reply path: after \<open>sched_reply\<close> the
  \<open>AwaitReply\<close> of thread 0 has returned the payload and the entry is still pending.
\<close>

theorem AwaitReply_entry_removed_counterexample:
  "run 0 sched_reply init = Some cfg_reply
   \<and> threads cfg_reply 0
       = Await_ret req1 (Recv (reply_of (Fulfill 7))) (Some (EncodedPayload 7)) None
   \<and> IsPending (mgr cfg_reply) (identifier req1)"
  by (simp add: run_sched_reply cfg_reply_simps IsPending_def req1_def)

section \<open>The state after a schedule that awaits every handle once\<close>

lemma AwaitReply_result_indep:
  "snd (AwaitReply r c M) = snd (AwaitReply r c M')"
  by (cases c) simp_all

lemma of_nat_64_inj:
  "a < 2 ^ 64 \<Longrightarrow> b < 2 ^ 64 \<Longrightarrow> (of_nat a :: 64 word) = of_nat b \<Longrightarrow> a = b"
  by (metis unat_of_nat_64)

lemma wf_req_mono: "wf_req this n r \<Longrightarrow> wf_req this (Suc n) r"
  by (simp add: wf_req_def)

lemma wf_req_identifier_eq:
  assumes "wf_req this n r" "wf_req this n r'" "n < 2 ^ 64"
  shows "identifier r = identifier r' \<longleftrightarrow> reply r = reply r'"
proof
  assume "identifier r = identifier r'"
  then have "(of_nat (Suc (reply r)) :: 64 word) = of_nat (Suc (reply r'))"
    using assms(1,2) by (auto simp add: wf_req_def dest: PutUint64_inj)
  moreover have "Suc (reply r) < 2 ^ 64" "Suc (reply r') < 2 ^ 64"
    using assms by (simp_all add: wf_req_def)
  ultimately have "Suc (reply r) = Suc (reply r')"
    by (rule of_nat_64_inj [rotated 2])
  then show "reply r = reply r'" by simp
next
  assume "reply r = reply r'"
  then show "identifier r = identifier r'"
    using assms(1,2) by (simp add: wf_req_def)
qed

lemma wf_req_not_next:
  assumes "wf_req this n r" "Suc n < 2 ^ 64"
  shows "identifier r \<noteq> PutUint64 (of_nat n + 1)"
proof
  assume "identifier r = PutUint64 (of_nat n + 1)"
  then have "(of_nat (Suc (reply r)) :: 64 word) = of_nat (Suc n)"
    using assms(1) by (auto simp add: wf_req_def dest: PutUint64_inj)
  moreover have "Suc (reply r) < 2 ^ 64"
    using assms by (simp add: wf_req_def)
  ultimately have "Suc (reply r) = Suc n"
    using assms(2) of_nat_64_inj by blast
  then show False using assms(1) by (simp add: wf_req_def)
qed

lemma wf_req_new:
  "wf_req this (Suc n)
     \<lparr>manager = this, identifier = PutUint64 (of_nat n + 1), timeout = tmo, reply = n\<rparr>"
  by (simp add: wf_req_def add.commute)

lemma inv_init: "inv this 0 init"
  by (simp add: inv_def counters_ok_def requests_ok_def single_owner_def sent_received_def
        sent_once_def returned_absent_def returns_ok_def owner_pending_def init_def
        NewRequestManager_def)

text \<open>Steps other than \<open>Create\<close> keep the counter and the channels.\<close>

lemma counters_ok_exec:
  assumes "counters_ok n s" "requests_ok this n s" "exec this ev s = Some s'"
    "\<not> is_Create ev"
  shows "counters_ok n s'"
  using assms(3,1,2,4)
  by (cases rule: exec_cases)
     (auto simp add: counters_ok_def requests_ok_def wf_req_def deregister_def
        split: resolver.splits select_case.splits)

lemma counters_ok_Create:
  assumes "counters_ok n s" "exec this (Call_Create i tmo) s = Some s'"
  shows "counters_ok (Suc n) s'"
  using assms(2,1)
  by (cases rule: exec_cases)
     (auto simp add: counters_ok_def nth_append split: resolver.splits select_case.splits)

lemma requests_ok_held:
  "requests_ok this n s \<Longrightarrow> held (threads s i) = Some r \<Longrightarrow> wf_req this n r"
  by (simp add: requests_ok_def)

lemma requests_ok_pending:
  "requests_ok this n s \<Longrightarrow> pending (mgr s) k = Some r \<Longrightarrow> identifier r = k \<and> wf_req this n r"
  by (simp add: requests_ok_def)

lemma requests_ok_exec:
  assumes "requests_ok this n s" "exec this ev s = Some s'" "\<not> is_Create ev"
  shows "requests_ok this n s'"
  using assms(2,1,3)
proof (cases rule: exec_cases)
  case (Lookup_found i ident res req)
  then show ?thesis
    using assms(1) by (auto simp add: requests_ok_def)
next
  case (Await_removes j r c p e)
  then show ?thesis
    using assms(1) requests_ok_held [OF assms(1), of j r]
    by (auto simp add: requests_ok_def deregister_def split: if_splits)
next
  case (Await_received j r rp p e)
  then show ?thesis
    using assms(1) requests_ok_held [OF assms(1), of j r]
    by (auto simp add: requests_ok_def split: if_splits)
next
  case (Call_AwaitReply i r)
  then show ?thesis
    using assms(1) requests_ok_held [OF assms(1), of i r]
    by (auto simp add: requests_ok_def split: if_splits)
next
  case (Handoff i j ident res req r)
  then show ?thesis
    using assms(1) requests_ok_held [OF assms(1), of j r]
    by (auto simp add: requests_ok_def split: if_splits)
next
  case (Again i r c p e)
  then show ?thesis
    using assms(1) requests_ok_held [OF assms(1), of i r]
    by (auto simp add: requests_ok_def split: if_splits)
next
  case (Select_other j r c)
  then show ?thesis
    using assms(1) requests_ok_held [OF assms(1), of j r]
    by (auto simp add: requests_ok_def split: if_splits)
next
  case (Recv_buf j r v vs)
  then show ?thesis
    using assms(1) requests_ok_held [OF assms(1), of j r]
    by (auto simp add: requests_ok_def split: if_splits)
next
  case (Deregister i ident res)
  then show ?thesis
    using assms(1) by (auto simp add: requests_ok_def deregister_def split: if_splits)
qed (use assms in \<open>auto simp add: requests_ok_def split: resolver.splits select_case.splits\<close>)

lemma requests_ok_Create:
  assumes "requests_ok this n s" "counters_ok n s" "exec this (Call_Create i tmo) s = Some s'"
  shows "requests_ok this (Suc n) s'"
  using assms(3)
proof (cases rule: exec_cases)
  case (Call_Create i' tmo' r)
  have r: "wf_req this (Suc n) r"
    using Call_Create(3) assms(2) wf_req_new [of this n tmo']
    by (simp add: counters_ok_def)
  show ?thesis
    unfolding requests_ok_def
  proof (intro conjI allI impI)
    fix k r' assume "pending (mgr s') k = Some r'"
    then show "identifier r' = k" "wf_req this (Suc n) r'"
      using Call_Create(4) r assms(1)
      by (auto simp add: requests_ok_def split: if_splits intro: wf_req_mono)
  next
    fix j r' assume "held (threads s' j) = Some r'"
    then show "wf_req this (Suc n) r'"
      using Call_Create(4) r assms(1)
      by (auto simp add: requests_ok_def split: if_splits intro: wf_req_mono)
  next
    fix j ident res req assume "threads s' j = Resolve_send ident res req"
    then show "identifier req = ident"
      using Call_Create(4) assms(1)
      by (auto simp add: requests_ok_def split: if_splits)
  qed
qed (auto split: resolver.splits select_case.splits)

lemma handle_held: "handle_of t = Some r \<Longrightarrow> held t = Some r"
  by (cases t) simp_all

lemma single_owner_exec:
  assumes "single_owner s" "exec this ev s = Some s'" "\<not> is_Create ev"
  shows "single_owner s'"
  using assms(2,1,3)
  by (cases rule: exec_cases)
     (auto simp add: single_owner_def split: if_splits resolver.splits select_case.splits)

lemma single_owner_Create:
  assumes "single_owner s" "requests_ok this n s" "counters_ok n s"
    "exec this (Call_Create i tmo) s = Some s'"
  shows "single_owner s'"
  using assms(4)
proof (cases rule: exec_cases)
  case (Call_Create i' tmo' r)
  have old: "\<And>j r'. handle_of (threads s j) = Some r' \<Longrightarrow> reply r' < n"
    using assms(2) by (auto simp add: requests_ok_def wf_req_def dest: handle_held)
  have new: "reply r = n"
    using Call_Create(3) assms(3) by (simp add: counters_ok_def)
  show ?thesis
    unfolding single_owner_def
  proof (intro allI impI)
    fix a b ra rb
    assume h: "handle_of (threads s' a) = Some ra \<and> handle_of (threads s' b) = Some rb
      \<and> reply ra = reply rb"
    show "a = b"
    proof (cases "a = i' \<or> b = i'")
      case False
      then show ?thesis
        using h Call_Create(4) assms(1) by (auto simp add: single_owner_def)
    next
      case True
      then show ?thesis
        using h Call_Create(4) new old [of a ra] old [of b rb] by (auto split: if_splits)
    qed
  qed
qed (auto split: resolver.splits select_case.splits)

lemma sent_receivedD:
  "sent_received s \<Longrightarrow> sent (threads s i) = Some (k, rp) \<Longrightarrow>
     \<exists>j r. handle_of (threads s j) = Some r \<and> identifier r = k
       \<and> received (threads s j) = Some rp"
  by (simp add: sent_received_def)

text \<open>A step that changes one thread, keeping what it has sent, holds and has received.\<close>

lemma sent_received_upd:
  assumes "sent_received s"
    and "sent t = sent (threads s i)"
    and "handle_of t = handle_of (threads s i)"
    and "received t = received (threads s i)"
  shows "sent_received (s\<lparr>threads := (threads s)(i := t)\<rparr>)"
  unfolding sent_received_def
proof (intro allI impI)
  fix a k rp
  assume "sent (threads (s\<lparr>threads := (threads s)(i := t)\<rparr>) a) = Some (k, rp)"
  then have "sent (threads s a) = Some (k, rp)"
    using assms(2) by (simp split: if_splits)
  then obtain j r where j: "handle_of (threads s j) = Some r" "identifier r = k"
    "received (threads s j) = Some rp"
    using assms(1) by (blast dest: sent_receivedD)
  then have "handle_of (threads (s\<lparr>threads := (threads s)(i := t)\<rparr>) j) = Some r
      \<and> identifier r = k \<and> received (threads (s\<lparr>threads := (threads s)(i := t)\<rparr>) j) = Some rp"
    using assms(3,4) by auto
  then show "\<exists>j r. handle_of (threads (s\<lparr>threads := (threads s)(i := t)\<rparr>) j) = Some r
      \<and> identifier r = k \<and> received (threads (s\<lparr>threads := (threads s)(i := t)\<rparr>) j) = Some rp"
    by blast
qed

lemma sent_received_other_fields:
  "sent_received (s\<lparr>mgr := M\<rparr>) = sent_received s"
  "sent_received (s\<lparr>chans := cs\<rparr>) = sent_received s"
  by (simp_all add: sent_received_def)

lemma sent_received_exec:
  assumes "sent_received s" "requests_ok this n s" "counters_ok n s"
    "exec this ev s = Some s'" "\<not> is_again ev"
  shows "sent_received s'"
  using assms(4)
proof (cases rule: exec_cases)
  case (Call_Create i tmo r)
  have "sent_received (s\<lparr>threads := (threads s)(i := Create_ret r)\<rparr>)"
    unfolding sent_received_def
  proof (intro allI impI)
    fix a k rp
    assume "sent (threads (s\<lparr>threads := (threads s)(i := Create_ret r)\<rparr>) a) = Some (k, rp)"
    then have "sent (threads s a) = Some (k, rp)"
      by (simp split: if_splits)
    then obtain j r' where j: "handle_of (threads s j) = Some r'" "identifier r' = k"
      "received (threads s j) = Some rp"
      using assms(1) by (blast dest: sent_receivedD)
    then have "j \<noteq> i" using Call_Create(2) by auto
    then show "\<exists>j r'. handle_of (threads (s\<lparr>threads := (threads s)(i := Create_ret r)\<rparr>) j) = Some r'
      \<and> identifier r' = k
      \<and> received (threads (s\<lparr>threads := (threads s)(i := Create_ret r)\<rparr>) j) = Some rp"
      using j by auto
  qed
  then show ?thesis
    using Call_Create(4) by (simp add: sent_received_def)
next
  case (Call_AwaitReply i r)
  then show ?thesis
    using sent_received_upd [OF assms(1), of "Await_select r" i] by simp
next
  case (Again i r c p e)
  then show ?thesis using assms(5) by simp
next
  case (Call_Resolve i ident res)
  then show ?thesis
    using sent_received_upd [OF assms(1), of "Resolve_lookup ident res" i] by simp
next
  case (Lookup_absent i ident res)
  then show ?thesis
    using sent_received_upd [OF assms(1), of "Resolve_ret ident res False" i] by simp
next
  case (Lookup_found i ident res req)
  then show ?thesis
    using sent_received_upd [OF assms(1), of "Resolve_send ident res req" i] by simp
next
  case (Handoff i j ident res req r)
  have wr: "wf_req this n r" "wf_req this n req"
    using requests_ok_held [OF assms(2), of j r] requests_ok_held [OF assms(2), of i req]
      Handoff(2,3) by simp_all
  have "identifier req = ident"
    using assms(2) Handoff(2) by (simp add: requests_ok_def)
  then have idr: "identifier r = ident"
    using wr Handoff(4) by (simp add: wf_req_def)
  have ij: "i \<noteq> j" using Handoff(2,3) by auto
  show ?thesis
    unfolding sent_received_def
  proof (intro allI impI)
    fix a k rp
    assume a: "sent (threads s' a) = Some (k, rp)"
    show "\<exists>b r'. handle_of (threads s' b) = Some r' \<and> identifier r' = k
            \<and> received (threads s' b) = Some rp"
    proof (cases "a = i")
      case True
      then have "k = ident" "rp = reply_of res"
        using a Handoff(7) ij by auto
      then have "handle_of (threads s' j) = Some r \<and> identifier r = k
            \<and> received (threads s' j) = Some rp"
        using Handoff(7) idr by simp
      then show ?thesis by blast
    next
      case False
      then have "sent (threads s a) = Some (k, rp)"
        using a Handoff(7) by (simp split: if_splits)
      then obtain b r' where b: "handle_of (threads s b) = Some r'" "identifier r' = k"
        "received (threads s b) = Some rp"
        using assms(1) by (blast dest: sent_receivedD)
      then have "b \<noteq> i" "b \<noteq> j" using Handoff(2,3) by auto
      then have "handle_of (threads s' b) = Some r' \<and> identifier r' = k
            \<and> received (threads s' b) = Some rp"
        using b Handoff(7) by simp
      then show ?thesis by blast
    qed
  qed
next
  case (Send_buf i ident res req)
  have "wf_req this n req"
    using requests_ok_held [OF assms(2), of i req] Send_buf(2) by simp
  then have "cap (chans s ! reply req) = 0"
    using assms(3) by (simp add: counters_ok_def wf_req_def)
  then show ?thesis using Send_buf(4) by simp
next
  case (Recv_buf j r v vs)
  have "wf_req this n r"
    using requests_ok_held [OF assms(2), of j r] Recv_buf(2) by simp
  then have "buf (chans s ! reply r) = []"
    using assms(3) by (simp add: counters_ok_def wf_req_def)
  then show ?thesis using Recv_buf(4) by simp
next
  case (Select_other j r c)
  then have "received (Await_case r c) = None"
    by (cases c) auto
  then show ?thesis
    using Select_other sent_received_upd [OF assms(1), of "Await_case r c" j] by simp
next
  case (Await_removes j r c p e)
  then have "received (Await_ret r c p e) = received (Await_case r c)"
    by (cases c) auto
  then have "sent_received (s\<lparr>threads := (threads s)(j := Await_ret r c p e)\<rparr>)"
    using Await_removes sent_received_upd [OF assms(1), of "Await_ret r c p e" j] by simp
  then show ?thesis
    using Await_removes(5) by (simp add: sent_received_def)
next
  case (Await_received j r rp p e)
  then show ?thesis
    using sent_received_upd [OF assms(1), of "Await_ret r (Recv rp) p e" j] by simp
next
  case (Deregister i ident res)
  then have "sent_received (s\<lparr>threads := (threads s)(i := Resolve_ret ident res True)\<rparr>)"
    using sent_received_upd [OF assms(1), of "Resolve_ret ident res True" i] by simp
  then show ?thesis
    using Deregister(3) by (simp add: sent_received_def)
qed

lemma returned_absent_exec:
  assumes "returned_absent s" "exec this ev s = Some s'" "\<not> is_Create ev"
  shows "returned_absent s'"
  using assms(2,1,3)
  by (cases rule: exec_cases)
     (auto simp add: returned_absent_def deregister_def
        split: if_splits resolver.splits select_case.splits)

lemma returned_absent_Create:
  assumes "returned_absent s" "sent_received s" "requests_ok this n s" "counters_ok n s"
    "Suc n < 2 ^ 64" "exec this (Call_Create i tmo) s = Some s'"
  shows "returned_absent s'"
  using assms(6)
proof (cases rule: exec_cases)
  case (Call_Create i' tmo' r)
  have new: "identifier r = PutUint64 (of_nat n + 1)"
    using Call_Create(3) assms(4) by (simp add: counters_ok_def)
  show ?thesis
    unfolding returned_absent_def
  proof (intro allI impI)
    fix a k res
    assume "threads s' a = Resolve_ret k res True"
    then have a: "threads s a = Resolve_ret k res True"
      using Call_Create(4) by (simp split: if_splits)
    then have absent: "pending (mgr s) k = None"
      using assms(1) unfolding returned_absent_def by blast
    have "sent (threads s a) = Some (k, reply_of res)"
      using a by simp
    then obtain j r' where j: "handle_of (threads s j) = Some r'" "identifier r' = k"
      using assms(2) by (blast dest: sent_receivedD)
    then have "wf_req this n r'"
      using requests_ok_held [OF assms(3), of j r'] by (simp add: handle_held)
    then have "k \<noteq> identifier r"
      using wf_req_not_next [OF _ assms(5), of this r'] j(2) new by simp
    then show "pending (mgr s') k = None"
      using Call_Create(4) absent by simp
  qed
qed (auto split: resolver.splits select_case.splits)

lemma returns_okI:
  assumes "returns_ok s"
    and "\<And>j r c p e. threads s' j = Await_ret r c p e \<Longrightarrow>
           threads s j = Await_ret r c p e \<or> snd (AwaitReply r c (mgr s)) = (p, e)"
  shows "returns_ok s'"
  unfolding returns_ok_def
proof (intro allI impI)
  fix j r c p e
  assume "threads s' j = Await_ret r c p e"
  then have "threads s j = Await_ret r c p e \<or> snd (AwaitReply r c (mgr s)) = (p, e)"
    by (rule assms(2))
  then have "snd (AwaitReply r c (mgr s)) = (p, e)"
    using assms(1) unfolding returns_ok_def by blast
  then show "snd (AwaitReply r c (mgr s')) = (p, e)"
    by (metis AwaitReply_result_indep)
qed

lemma returns_ok_exec:
  assumes "returns_ok s" "exec this ev s = Some s'"
  shows "returns_ok s'"
  using assms(2)
proof (cases rule: exec_cases)
  case (Await_removes j r c p e)
  then show ?thesis
    by (intro returns_okI [OF assms(1)]) (simp del: AwaitReply.simps split: if_splits)
next
  case (Await_received j r rp p e)
  then show ?thesis
    by (intro returns_okI [OF assms(1)]) (simp del: AwaitReply.simps split: if_splits)
next
  case (Handoff i j ident res req r)
  then show ?thesis
    by (intro returns_okI [OF assms(1)]) (simp del: AwaitReply.simps split: if_splits)
next
  case (Select_other j r c)
  then show ?thesis
    by (intro returns_okI [OF assms(1)]) (simp del: AwaitReply.simps split: if_splits)
qed (rule returns_okI [OF assms(1)], simp del: AwaitReply.simps split: if_splits)+

lemma single_ownerD:
  "single_owner s \<Longrightarrow> handle_of (threads s i) = Some r \<Longrightarrow>
     handle_of (threads s j) = Some r' \<Longrightarrow> reply r = reply r' \<Longrightarrow> i = j"
  unfolding single_owner_def by blast

lemma sent_onceD:
  "sent_once s \<Longrightarrow> sent (threads s i) = Some (k, rp) \<Longrightarrow>
     sent (threads s i') = Some (k, rp') \<Longrightarrow> i = i'"
  unfolding sent_once_def by blast

lemma sent_once_upd:
  assumes "sent_once s" and "sent t = sent (threads s i)"
    and "threads s' = (threads s)(i := t)"
  shows "sent_once s'"
  unfolding sent_once_def
proof (intro allI impI)
  fix a b k rp rp'
  assume "sent (threads s' a) = Some (k, rp) \<and> sent (threads s' b) = Some (k, rp')"
  then have "sent (threads s a) = Some (k, rp)" "sent (threads s b) = Some (k, rp')"
    using assms(2,3) by (auto split: if_splits)
  then show "a = b"
    by (rule sent_onceD [OF assms(1)])
qed

lemma sent_once_exec:
  assumes "sent_once s" "sent_received s" "single_owner s" "requests_ok this n s"
    "counters_ok n s" "n < 2 ^ 64" "exec this ev s = Some s'" "\<not> is_again ev"
  shows "sent_once s'"
  using assms(7)
proof (cases rule: exec_cases)
  case (Call_Create i tmo r)
  then show ?thesis
    by (intro sent_once_upd [OF assms(1), where t = "Create_ret r" and i = i]) simp_all
next
  case (Call_AwaitReply i r)
  then show ?thesis
    by (intro sent_once_upd [OF assms(1), where t = "Await_select r" and i = i]) simp_all
next
  case (Again i r c p e)
  then show ?thesis using assms(8) by simp
next
  case (Call_Resolve i ident res)
  then show ?thesis
    by (intro sent_once_upd [OF assms(1), where t = "Resolve_lookup ident res" and i = i]) simp_all
next
  case (Lookup_absent i ident res)
  then show ?thesis
    by (intro sent_once_upd [OF assms(1), where t = "Resolve_ret ident res False" and i = i]) simp_all
next
  case (Lookup_found i ident res req)
  then show ?thesis
    by (intro sent_once_upd [OF assms(1), where t = "Resolve_send ident res req" and i = i]) simp_all
next
  case (Handoff i j ident res req r)
  have wr: "wf_req this n r" "wf_req this n req"
    using requests_ok_held [OF assms(4), of j r] requests_ok_held [OF assms(4), of i req]
      Handoff(2,3) by simp_all
  have "identifier req = ident"
    using assms(4) Handoff(2) by (simp add: requests_ok_def)
  then have idr: "identifier r = ident"
    using wf_req_identifier_eq [OF wr assms(6)] Handoff(4) by simp
  have ij: "i \<noteq> j" using Handoff(2,3) by auto
  have none: "\<And>a rp. sent (threads s a) \<noteq> Some (ident, rp)"
  proof
    fix a rp assume "sent (threads s a) = Some (ident, rp)"
    then obtain b r' where b: "handle_of (threads s b) = Some r'" "identifier r' = ident"
      "received (threads s b) = Some rp"
      using assms(2) by (blast dest: sent_receivedD)
    have "wf_req this n r'"
      using requests_ok_held [OF assms(4), of b r'] b(1) by (simp add: handle_held)
    then have rr: "reply r' = reply r"
      using wf_req_identifier_eq [OF _ wr(1) assms(6), of r'] b(2) idr by simp
    have hj: "handle_of (threads s j) = Some r"
      using Handoff(3) by simp
    have "b = j"
      by (rule single_ownerD [OF assms(3) b(1) hj rr])
    then show False using b(3) Handoff(3) by simp
  qed
  show ?thesis
    unfolding sent_once_def
  proof (intro allI impI)
    fix a b k rp rp'
    assume h: "sent (threads s' a) = Some (k, rp) \<and> sent (threads s' b) = Some (k, rp')"
    have sa: "a \<noteq> i \<Longrightarrow> sent (threads s a) = Some (k, rp)"
      using h Handoff(7) by (simp split: if_splits)
    have sb: "b \<noteq> i \<Longrightarrow> sent (threads s b) = Some (k, rp')"
      using h Handoff(7) by (simp split: if_splits)
    have ki: "a = i \<or> b = i \<Longrightarrow> k = ident"
      using h Handoff(7) ij by (auto split: if_splits)
    show "a = b"
    proof (cases "a = i")
      case True
      show ?thesis
      proof (rule ccontr)
        assume "a \<noteq> b"
        then have "sent (threads s b) = Some (ident, rp')"
          using sb ki True by simp
        then show False using none by simp
      qed
    next
      case False
      show ?thesis
      proof (cases "b = i")
        case True
        then have "sent (threads s a) = Some (ident, rp)"
          using sa ki False by simp
        then show ?thesis using none by simp
      next
        case bi: False
        show ?thesis
          by (rule sent_onceD [OF assms(1) sa [OF False] sb [OF bi]])
      qed
    qed
  qed
next
  case (Send_buf i ident res req)
  have "wf_req this n req"
    using requests_ok_held [OF assms(4), of i req] Send_buf(2) by simp
  then have "cap (chans s ! reply req) = 0"
    using assms(5) by (simp add: counters_ok_def wf_req_def)
  then show ?thesis using Send_buf(4) by simp
next
  case (Recv_buf j r v vs)
  have "wf_req this n r"
    using requests_ok_held [OF assms(4), of j r] Recv_buf(2) by simp
  then have "buf (chans s ! reply r) = []"
    using assms(5) by (simp add: counters_ok_def wf_req_def)
  then show ?thesis using Recv_buf(4) by simp
next
  case (Select_other j r c)
  then show ?thesis
    by (intro sent_once_upd [OF assms(1), where t = "Await_case r c" and i = j]) simp_all
next
  case (Await_removes j r c p e)
  then show ?thesis
    by (intro sent_once_upd [OF assms(1), where t = "Await_ret r c p e" and i = j]) simp_all
next
  case (Await_received j r rp p e)
  then show ?thesis
    by (intro sent_once_upd [OF assms(1), where t = "Await_ret r (Recv rp) p e" and i = j]) simp_all
next
  case (Deregister i ident res)
  then show ?thesis
    by (intro sent_once_upd [OF assms(1), where t = "Resolve_ret ident res True" and i = i]) simp_all
qed

lemma awaiting_handle:
  "awaiting t = Some r \<Longrightarrow> handle_of t = Some r \<and> received t = None"
proof (cases t)
  case (Await_case r' c)
  assume "awaiting t = Some r"
  then show ?thesis using Await_case by (cases c) auto
qed auto

lemma owner_pendingD:
  "owner_pending s \<Longrightarrow> awaiting (threads s j) = Some r \<Longrightarrow>
     pending (mgr s) (identifier r) = Some r"
  unfolding owner_pending_def by blast

lemma owner_pending_upd:
  assumes "owner_pending s"
    and "awaiting t = None \<or> awaiting t = awaiting (threads s i)"
    and "threads s' = (threads s)(i := t)" "mgr s' = mgr s"
  shows "owner_pending s'"
  unfolding owner_pending_def
proof (intro allI impI)
  fix j r
  assume "awaiting (threads s' j) = Some r"
  then have "awaiting (threads s j) = Some r"
    using assms(2,3) by (auto split: if_splits)
  then show "pending (mgr s') (identifier r) = Some r"
    using owner_pendingD [OF assms(1)] assms(4) by simp
qed

lemma wf_req_owner_unique:
  assumes "requests_ok this n s" "single_owner s" "n < 2 ^ 64"
    and "handle_of (threads s i) = Some r" "handle_of (threads s j) = Some r'"
    and "identifier r = identifier r'"
  shows "i = j"
proof -
  have "wf_req this n r" "wf_req this n r'"
    using requests_ok_held [OF assms(1), of i r] requests_ok_held [OF assms(1), of j r']
      assms(4,5)
    by (simp_all add: handle_held)
  then have "reply r = reply r'"
    using wf_req_identifier_eq [of this n r r'] assms(3,6) by simp
  then show ?thesis
    by (rule single_ownerD [OF assms(2) assms(4,5)])
qed

lemma owner_pending_exec:
  assumes "owner_pending s" "sent_received s" "single_owner s" "requests_ok this n s"
    "counters_ok n s" "n + (if is_Create ev then 1 else 0) < 2 ^ 64"
    "exec this ev s = Some s'" "\<not> is_again ev"
  shows "owner_pending s'"
  using assms(7)
proof (cases rule: exec_cases)
  case (Call_Create i tmo r)
  have n: "Suc n < 2 ^ 64" using assms(6) Call_Create(1) by simp
  have new: "identifier r = PutUint64 (of_nat n + 1)"
    using Call_Create(3) assms(5) by (simp add: counters_ok_def)
  show ?thesis
    unfolding owner_pending_def
  proof (intro allI impI)
    fix j r'
    assume a: "awaiting (threads s' j) = Some r'"
    show "pending (mgr s') (identifier r') = Some r'"
    proof (cases "j = i")
      case True
      then have "r' = r" using a Call_Create(4) by simp
      then show ?thesis using Call_Create(4) by simp
    next
      case False
      then have b: "awaiting (threads s j) = Some r'"
        using a Call_Create(4) by simp
      then have "wf_req this n r'"
        using requests_ok_held [OF assms(4), of j r'] awaiting_handle [OF b]
        by (simp add: handle_held)
      then have "identifier r' \<noteq> identifier r"
        using wf_req_not_next [OF _ n, of this r'] new by simp
      then show ?thesis
        using owner_pendingD [OF assms(1) b] Call_Create(4) by simp
    qed
  qed
next
  case (Call_AwaitReply i r)
  then show ?thesis
    by (intro owner_pending_upd [OF assms(1), where t = "Await_select r" and i = i]) simp_all
next
  case (Again i r c p e)
  then show ?thesis using assms(8) by simp
next
  case (Call_Resolve i ident res)
  then show ?thesis
    by (intro owner_pending_upd [OF assms(1), where t = "Resolve_lookup ident res" and i = i])
       simp_all
next
  case (Lookup_absent i ident res)
  then show ?thesis
    by (intro owner_pending_upd [OF assms(1), where t = "Resolve_ret ident res False" and i = i])
       simp_all
next
  case (Lookup_found i ident res req)
  then show ?thesis
    by (intro owner_pending_upd [OF assms(1), where t = "Resolve_send ident res req" and i = i])
       simp_all
next
  case (Handoff i j ident res req r)
  have h1: "owner_pending (s\<lparr>threads := (threads s)(i := Resolve_dereg ident res)\<rparr>)"
    by (intro owner_pending_upd [OF assms(1), where t = "Resolve_dereg ident res" and i = i])
       simp_all
  show ?thesis
    using Handoff(7)
    by (intro owner_pending_upd [OF h1, where t = "Await_case r (Recv (reply_of res))"
          and i = j])
       simp_all
next
  case (Send_buf i ident res req)
  then show ?thesis
    by (intro owner_pending_upd [OF assms(1), where t = "Resolve_dereg ident res" and i = i])
       simp_all
next
  case (Recv_buf j r v vs)
  then show ?thesis
    by (intro owner_pending_upd [OF assms(1), where t = "Await_case r (Recv v)" and i = j])
       simp_all
next
  case (Select_other j r c)
  then have "awaiting (Await_case r c) = Some r"
    by (cases c) auto
  then show ?thesis
    using Select_other
    by (intro owner_pending_upd [OF assms(1), where t = "Await_case r c" and i = j]) simp_all
next
  case (Await_removes j r c p e)
  have n: "n < 2 ^ 64" using assms(6) by simp
  show ?thesis
    unfolding owner_pending_def
  proof (intro allI impI)
    fix a r'
    assume a: "awaiting (threads s' a) = Some r'"
    then have aj: "a \<noteq> j" using Await_removes(5) by auto
    then have b: "awaiting (threads s a) = Some r'"
      using a Await_removes(5) by simp
    have "identifier r' \<noteq> identifier r"
    proof
      assume "identifier r' = identifier r"
      then have "a = j"
        using wf_req_owner_unique [OF assms(4,3) n, of a r' j r] awaiting_handle [OF b]
          Await_removes(2) by simp
      then show False using aj by simp
    qed
    then show "pending (mgr s') (identifier r') = Some r'"
      using owner_pendingD [OF assms(1) b] Await_removes(5) by (simp add: deregister_def)
  qed
next
  case (Await_received j r rp p e)
  then show ?thesis
    by (intro owner_pending_upd [OF assms(1), where t = "Await_ret r (Recv rp) p e" and i = j])
       simp_all
next
  case (Deregister i ident res)
  have n: "n < 2 ^ 64" using assms(6) by simp
  have "sent (threads s i) = Some (ident, reply_of res)"
    using Deregister(2) by simp
  then obtain b rb where b: "handle_of (threads s b) = Some rb" "identifier rb = ident"
    "received (threads s b) = Some (reply_of res)"
    using sent_receivedD [OF assms(2)] by blast
  show ?thesis
    unfolding owner_pending_def
  proof (intro allI impI)
    fix a r'
    assume a: "awaiting (threads s' a) = Some r'"
    then have ai: "a \<noteq> i" using Deregister(3) by auto
    then have c: "awaiting (threads s a) = Some r'"
      using a Deregister(3) by simp
    have "identifier r' \<noteq> ident"
    proof
      assume "identifier r' = ident"
      then have "a = b"
        using wf_req_owner_unique [OF assms(4,3) n, of a r' b rb] awaiting_handle [OF c] b(1,2)
        by simp
      then show False using awaiting_handle [OF c] b(3) by simp
    qed
    then show "pending (mgr s') (identifier r') = Some r'"
      using owner_pendingD [OF assms(1) c] Deregister(3) by (simp add: deregister_def)
  qed
qed

lemma inv_exec:
  assumes "inv this n s" "exec this ev s = Some s'" "\<not> is_again ev"
    "n + (if is_Create ev then 1 else 0) < 2 ^ 64"
  shows "inv this (n + (if is_Create ev then 1 else 0)) s'"
proof -
  have I: "counters_ok n s" "requests_ok this n s" "single_owner s" "sent_received s"
    "returned_absent s" "returns_ok s" "sent_once s" "owner_pending s"
    using assms(1) by (simp_all add: inv_def)
  have n: "n < 2 ^ 64" using assms(4) by simp
  have sr: "sent_received s'"
    by (rule sent_received_exec [OF I(4) I(2) I(1) assms(2) assms(3)])
  have ro: "returns_ok s'"
    by (rule returns_ok_exec [OF I(6) assms(2)])
  have so: "sent_once s'"
    by (rule sent_once_exec [OF I(7) I(4) I(3) I(2) I(1) n assms(2) assms(3)])
  have op: "owner_pending s'"
    by (rule owner_pending_exec [OF I(8) I(4) I(3) I(2) I(1) assms(4) assms(2) assms(3)])
  show ?thesis
  proof (cases "is_Create ev")
    case True
    then obtain i tmo where ev: "ev = Call_Create i tmo"
      by (cases ev) auto
    have n': "Suc n < 2 ^ 64" using assms(4) True by simp
    have e: "exec this (Call_Create i tmo) s = Some s'" using assms(2) ev by simp
    have "counters_ok (Suc n) s'"
      by (rule counters_ok_Create [OF I(1) e])
    moreover have "requests_ok this (Suc n) s'"
      by (rule requests_ok_Create [OF I(2) I(1) e])
    moreover have "single_owner s'"
      by (rule single_owner_Create [OF I(3) I(2) I(1) e])
    moreover have "returned_absent s'"
      by (rule returned_absent_Create [OF I(5) I(4) I(2) I(1) n' e])
    ultimately show ?thesis
      using True sr ro so op by (simp add: inv_def)
  next
    case False
    have "counters_ok n s'"
      by (rule counters_ok_exec [OF I(1) I(2) assms(2) False])
    moreover have "requests_ok this n s'"
      by (rule requests_ok_exec [OF I(2) assms(2) False])
    moreover have "single_owner s'"
      by (rule single_owner_exec [OF I(3) assms(2) False])
    moreover have "returned_absent s'"
      by (rule returned_absent_exec [OF I(5) assms(2) False])
    ultimately show ?thesis
      using False sr ro so op by (simp add: inv_def)
  qed
qed

lemma inv_run:
  "run this evs s = Some s' \<Longrightarrow> inv this n s \<Longrightarrow> awaits_once evs \<Longrightarrow>
     n + creations evs < 2 ^ 64 \<Longrightarrow> inv this (n + creations evs) s'"
proof (induction evs arbitrary: s n)
  case Nil
  then show ?case by (simp add: creations_def)
next
  case (Cons ev evs)
  from Cons.prems(1) obtain s1 where s1: "exec this ev s = Some s1" "run this evs s1 = Some s'"
    by (auto split: option.splits)
  let ?d = "if is_Create ev then 1 else 0 :: nat"
  have c: "creations (ev # evs) = ?d + creations evs"
    by (simp add: creations_def)
  have a: "\<not> is_again ev" "awaits_once evs"
    using Cons.prems(3) by (auto simp add: awaits_once_def split: if_splits)
  have lt: "n + ?d < 2 ^ 64" "(n + ?d) + creations evs < 2 ^ 64"
    using Cons.prems(4) c by simp_all
  have inv1: "inv this (n + ?d) s1"
    by (rule inv_exec [OF Cons.prems(2) s1(1) a(1) lt(1)])
  have "inv this ((n + ?d) + creations evs) s'"
    by (rule Cons.IH [OF s1(2) inv1 a(2) lt(2)])
  moreover have "(n + ?d) + creations evs = n + creations (ev # evs)"
    using c by simp
  ultimately show ?case by (simp only:)
qed

lemma inv_reachable:
  "run this evs init = Some s \<Longrightarrow> awaits_once evs \<Longrightarrow> creations evs < 2 ^ 64 \<Longrightarrow>
     inv this (creations evs) s"
  using inv_run [of this evs init s 0] by (simp add: inv_init)

section \<open>The state after any schedule\<close>

text \<open>
  A property of the states of a schedule is proved by induction over the schedule, with
  the number of calls of \<open>Create\<close> counted along.
\<close>

lemma run_count_induct:
  assumes "run this evs s = Some s'" and "P n s"
    and "\<And>m t ev t'. P m t \<Longrightarrow> exec this ev t = Some t' \<Longrightarrow> ev \<in> set evs \<Longrightarrow>
           m + (if is_Create ev then 1 else 0) \<le> n + creations evs \<Longrightarrow>
           P (m + (if is_Create ev then 1 else 0)) t'"
  shows "P (n + creations evs) s'"
  using assms
proof (induction evs arbitrary: s n)
  case Nil
  then show ?case by (simp add: creations_def)
next
  case (Cons ev evs)
  from Cons.prems(1) obtain s1 where s1: "exec this ev s = Some s1" "run this evs s1 = Some s'"
    by (auto split: option.splits)
  let ?d = "if is_Create ev then 1 else 0 :: nat"
  have c: "creations (ev # evs) = ?d + creations evs"
    by (simp add: creations_def)
  have P1: "P (n + ?d) s1"
    by (rule Cons.prems(3) [OF Cons.prems(2) s1(1)]) (simp_all add: c)
  have "P ((n + ?d) + creations evs) s'"
  proof (rule Cons.IH [OF s1(2) P1])
    fix m t e t'
    assume "P m t" "exec this e t = Some t'" "e \<in> set evs"
      "m + (if is_Create e then 1 else 0) \<le> n + ?d + creations evs"
    then show "P (m + (if is_Create e then 1 else 0)) t'"
      using Cons.prems(3) [of m t e t'] c by simp
  qed
  moreover have "(n + ?d) + creations evs = n + creations (ev # evs)"
    using c by simp
  ultimately show ?case by (simp only:)
qed


lemma base_exec:
  assumes "counters_ok n s" "requests_ok this n s" "exec this ev s = Some s'"
  shows "counters_ok (n + (if is_Create ev then 1 else 0)) s'
    \<and> requests_ok this (n + (if is_Create ev then 1 else 0)) s'"
proof (cases "is_Create ev")
  case True
  then obtain i tmo where ev: "ev = Call_Create i tmo"
    by (cases ev) auto
  have e: "exec this (Call_Create i tmo) s = Some s'" using assms(3) ev by simp
  have "counters_ok (Suc n) s'"
    by (rule counters_ok_Create [OF assms(1) e])
  moreover have "requests_ok this (Suc n) s'"
    by (rule requests_ok_Create [OF assms(2) assms(1) e])
  ultimately show ?thesis using True by simp
next
  case False
  have "counters_ok n s'"
    by (rule counters_ok_exec [OF assms(1) assms(2) assms(3) False])
  moreover have "requests_ok this n s'"
    by (rule requests_ok_exec [OF assms(2) assms(3) False])
  ultimately show ?thesis using False by simp
qed

lemma sent_allocatedD:
  "sent_allocated n s \<Longrightarrow> sent (threads s i) = Some (k, rp) \<Longrightarrow>
     \<exists>c. c < n \<and> k = PutUint64 (of_nat (Suc c))"
  unfolding sent_allocated_def by blast

lemma sent_allocated_upd:
  assumes "sent_allocated n s" and "n \<le> m"
    and "sent t = None \<or> sent t = sent (threads s i)
         \<or> (\<exists>k rp c. sent t = Some (k, rp) \<and> c < m \<and> k = PutUint64 (of_nat (Suc c)))"
    and "threads s' = (threads s)(i := t)"
  shows "sent_allocated m s'"
  unfolding sent_allocated_def
proof (intro allI impI)
  fix a k rp
  assume a: "sent (threads s' a) = Some (k, rp)"
  have old: "\<exists>c. c < m \<and> k = PutUint64 (of_nat (Suc c))"
    if h: "sent (threads s a) = Some (k, rp)"
  proof -
    obtain c where "c < n" "k = PutUint64 (of_nat (Suc c))"
      using sent_allocatedD [OF assms(1) h] by blast
    then have "c < m \<and> k = PutUint64 (of_nat (Suc c))"
      using assms(2) by simp
    then show ?thesis by (rule exI)
  qed
  show "\<exists>c. c < m \<and> k = PutUint64 (of_nat (Suc c))"
  proof (cases "a = i")
    case True
    then have "sent t = Some (k, rp)" using a assms(4) by simp
    then show ?thesis using assms(3) old True by auto
  next
    case False
    then have "sent (threads s a) = Some (k, rp)" using a assms(4) by simp
    then show ?thesis by (rule old)
  qed
qed

lemma sent_allocated_exec:
  assumes "sent_allocated n s" "requests_ok this n s" "exec this ev s = Some s'"
  shows "sent_allocated (n + (if is_Create ev then 1 else 0)) s'"
  using assms(3)
proof (cases rule: exec_cases)
  case (Call_Create i tmo r)
  then show ?thesis
    by (intro sent_allocated_upd [OF assms(1), where t = "Create_ret r" and i = i]) simp_all
next
  case (Call_AwaitReply i r)
  then show ?thesis
    by (intro sent_allocated_upd [OF assms(1), where t = "Await_select r" and i = i]) simp_all
next
  case (Again i r c p e)
  then show ?thesis
    by (intro sent_allocated_upd [OF assms(1), where t = "Await_select r" and i = i]) simp_all
next
  case (Call_Resolve i ident res)
  then have "\<not> is_Create ev" by (cases res) simp_all
  then show ?thesis
    using Call_Resolve
    by (intro sent_allocated_upd [OF assms(1), where t = "Resolve_lookup ident res" and i = i])
       simp_all
next
  case (Lookup_absent i ident res)
  then show ?thesis
    by (intro sent_allocated_upd [OF assms(1), where t = "Resolve_ret ident res False"
          and i = i]) simp_all
next
  case (Lookup_found i ident res req)
  then show ?thesis
    by (intro sent_allocated_upd [OF assms(1), where t = "Resolve_send ident res req"
          and i = i]) simp_all
next
  case (Handoff i j ident res req r)
  have "wf_req this n req" "identifier req = ident"
    using requests_ok_held [OF assms(2), of i req] assms(2) Handoff(2)
    by (simp_all add: requests_ok_def)
  then have al: "reply req < n \<and> ident = PutUint64 (of_nat (Suc (reply req)))"
    by (auto simp add: wf_req_def)
  have h1: "sent_allocated n (s\<lparr>threads := (threads s)(i := Resolve_dereg ident res)\<rparr>)"
    using al
    by (intro sent_allocated_upd [OF assms(1), where t = "Resolve_dereg ident res" and i = i])
       auto
  show ?thesis
    using Handoff(1,7)
    by (intro sent_allocated_upd [OF h1, where t = "Await_case r (Recv (reply_of res))"
          and i = j]) simp_all
next
  case (Send_buf i ident res req)
  have "wf_req this n req" "identifier req = ident"
    using requests_ok_held [OF assms(2), of i req] assms(2) Send_buf(2)
    by (simp_all add: requests_ok_def)
  then have al: "reply req < n \<and> ident = PutUint64 (of_nat (Suc (reply req)))"
    by (auto simp add: wf_req_def)
  show ?thesis
    using al Send_buf(1,5)
    by (intro sent_allocated_upd [OF assms(1), where t = "Resolve_dereg ident res" and i = i])
       auto
next
  case (Recv_buf j r v vs)
  then show ?thesis
    by (intro sent_allocated_upd [OF assms(1), where t = "Await_case r (Recv v)" and i = j])
       simp_all
next
  case (Select_other j r c)
  then have "\<not> is_Create ev" by (cases c) simp_all
  then show ?thesis
    using Select_other
    by (intro sent_allocated_upd [OF assms(1), where t = "Await_case r c" and i = j])
       simp_all
next
  case (Await_removes j r c p e)
  then show ?thesis
    by (intro sent_allocated_upd [OF assms(1), where t = "Await_ret r c p e" and i = j])
       simp_all
next
  case (Await_received j r rp p e)
  then show ?thesis
    by (intro sent_allocated_upd [OF assms(1), where t = "Await_ret r (Recv rp) p e"
          and i = j]) simp_all
next
  case (Deregister i ident res)
  then show ?thesis
    by (intro sent_allocated_upd [OF assms(1), where t = "Resolve_ret ident res True"
          and i = i]) simp_all
qed

lemma returned_absent_Create_allocated:
  assumes "returned_absent s" "sent_allocated n s" "counters_ok n s" "Suc n < 2 ^ 64"
    "exec this (Call_Create i tmo) s = Some s'"
  shows "returned_absent s'"
  using assms(5)
proof (cases rule: exec_cases)
  case (Call_Create i' tmo' r)
  have new: "identifier r = PutUint64 (of_nat (Suc n))"
    using Call_Create(3) assms(3) by (simp add: counters_ok_def add.commute)
  show ?thesis
    unfolding returned_absent_def
  proof (intro allI impI)
    fix a k res
    assume "threads s' a = Resolve_ret k res True"
    then have a: "threads s a = Resolve_ret k res True"
      using Call_Create(4) by (simp split: if_splits)
    then have absent: "pending (mgr s) k = None"
      using assms(1) unfolding returned_absent_def by blast
    have "sent (threads s a) = Some (k, reply_of res)"
      using a by simp
    then obtain c where c: "c < n" "k = PutUint64 (of_nat (Suc c))"
      using sent_allocatedD [OF assms(2)] by blast
    have "k \<noteq> identifier r"
    proof
      assume "k = identifier r"
      then have "(of_nat (Suc c) :: 64 word) = of_nat (Suc n)"
        using c(2) new by (auto dest: PutUint64_inj)
      moreover have "Suc c < 2 ^ 64" using c(1) assms(4) by simp
      ultimately have "Suc c = Suc n"
        using assms(4) of_nat_64_inj by blast
      then show False using c(1) by simp
    qed
    then show "pending (mgr s') k = None"
      using Call_Create(4) absent by simp
  qed
qed (auto split: resolver.splits select_case.splits)

lemma absent_exec:
  assumes "counters_ok n s \<and> requests_ok this n s \<and> sent_allocated n s \<and> returned_absent s"
    and "exec this ev s = Some s'" and "n + (if is_Create ev then 1 else 0) < 2 ^ 64"
  shows "counters_ok (n + (if is_Create ev then 1 else 0)) s'
    \<and> requests_ok this (n + (if is_Create ev then 1 else 0)) s'
    \<and> sent_allocated (n + (if is_Create ev then 1 else 0)) s' \<and> returned_absent s'"
proof -
  have I: "counters_ok n s" "requests_ok this n s" "sent_allocated n s" "returned_absent s"
    using assms(1) by simp_all
  have "returned_absent s'"
  proof (cases "is_Create ev")
    case True
    then obtain i tmo where ev: "ev = Call_Create i tmo"
      by (cases ev) auto
    have e: "exec this (Call_Create i tmo) s = Some s'" using assms(2) ev by simp
    have n: "Suc n < 2 ^ 64" using assms(3) True by simp
    show ?thesis
      by (rule returned_absent_Create_allocated [OF I(4) I(3) I(1) n e])
  next
    case False
    show ?thesis
      by (rule returned_absent_exec [OF I(4) assms(2) False])
  qed
  then show ?thesis
    using base_exec [OF I(1) I(2) assms(2)] sent_allocated_exec [OF I(3) I(2) assms(2)]
    by simp
qed

text \<open>
  With fewer than \<open>2^64\<close> calls of \<open>Create\<close>, however the handles are awaited: an
  identifier on which \<open>Fulfill\<close> or \<open>Fail\<close> has returned \<open>true\<close> is not in the table.
\<close>

lemma absent_reachable:
  assumes "run this evs init = Some (s :: ('p::zero, 'e) config)" "creations evs < 2 ^ 64"
  shows "returned_absent s"
proof -
  let ?P = "\<lambda>n (t :: ('p, 'e) config). counters_ok n t \<and> requests_ok this n t \<and> sent_allocated n t
    \<and> returned_absent t"
  have "?P 0 init"
    by (simp add: counters_ok_def requests_ok_def sent_allocated_def returned_absent_def
          init_def NewRequestManager_def)
  then have "?P (0 + creations evs) s"
  proof (rule run_count_induct [OF assms(1), where P = ?P])
    fix m t ev t'
    assume "?P m t" "exec this ev t = Some t'"
      "m + (if is_Create ev then 1 else 0) \<le> 0 + creations evs"
    then show "?P (m + (if is_Create ev then 1 else 0)) t'"
      using assms(2) by (intro absent_exec) simp_all
  qed
  then show ?thesis by simp
qed



section \<open>Exactly-once resolution\<close>

lemma resolves_cases:
  "resolves t k \<Longrightarrow>
     (\<exists>rp. sent t = Some (k, rp))
     \<or> (\<exists>r. handle_of t = Some r \<and> identifier r = k \<and> received t = None)"
proof (cases t)
  case (Await_case r c)
  assume "resolves t k"
  then show ?thesis using Await_case by (cases c) auto
next
  case (Await_ret r c p e)
  assume "resolves t k"
  then show ?thesis using Await_ret by (cases c) auto
qed auto

lemma owner_unique:
  assumes "inv this n s" "n < 2 ^ 64"
    and "handle_of (threads s i) = Some r" "handle_of (threads s j) = Some r'"
    and "identifier r = identifier r'"
  shows "i = j"
proof -
  have I: "requests_ok this n s" "single_owner s"
    using assms(1) by (simp_all add: inv_def)
  have "wf_req this n r" "wf_req this n r'"
    using requests_ok_held [OF I(1), of i r] requests_ok_held [OF I(1), of j r'] assms(3,4)
    by (simp_all add: handle_held)
  then have "reply r = reply r'"
    using wf_req_identifier_eq [of this n r r'] assms(2,5) by simp
  then show ?thesis
    by (rule single_ownerD [OF I(2) assms(3,4)])
qed

lemma resolves_unique:
  assumes "inv this n s" "n < 2 ^ 64"
    and "resolves (threads s i) k" "resolves (threads s j) k"
  shows "i = j"
proof -
  have I: "sent_received s" "sent_once s"
    using assms(1) by (simp_all add: inv_def)
  consider
    (ss) rp rp' where "sent (threads s i) = Some (k, rp)" "sent (threads s j) = Some (k, rp')"
  | (sh) rp r where "sent (threads s i) = Some (k, rp)"
      "handle_of (threads s j) = Some r" "identifier r = k" "received (threads s j) = None"
  | (hs) rp r where "sent (threads s j) = Some (k, rp)"
      "handle_of (threads s i) = Some r" "identifier r = k" "received (threads s i) = None"
  | (hh) r r' where "handle_of (threads s i) = Some r" "identifier r = k"
      "handle_of (threads s j) = Some r'" "identifier r' = k"
    using resolves_cases [OF assms(3)] resolves_cases [OF assms(4)] by blast
  then show ?thesis
  proof cases
    case ss
    then show ?thesis by (rule sent_onceD [OF I(2)])
  next
    case sh
    obtain b r' where b: "handle_of (threads s b) = Some r'" "identifier r' = k"
      "received (threads s b) = Some rp"
      using sent_receivedD [OF I(1) sh(1)] by blast
    have "b = j"
      by (rule owner_unique [OF assms(1,2) b(1) sh(2)]) (simp add: b(2) sh(3))
    then show ?thesis using b(3) sh(4) by simp
  next
    case hs
    obtain b r' where b: "handle_of (threads s b) = Some r'" "identifier r' = k"
      "received (threads s b) = Some rp"
      using sent_receivedD [OF I(1) hs(1)] by blast
    have "b = i"
      by (rule owner_unique [OF assms(1,2) b(1) hs(2)]) (simp add: b(2) hs(3))
    then show ?thesis using b(3) hs(4) by simp
  next
    case hh
    show ?thesis
      by (rule owner_unique [OF assms(1,2) hh(1) hh(3)]) (simp add: hh(2) hh(4))
  qed
qed

text \<open>
  Claim C1, as amended. In every state reached by a schedule that awaits no handle
  twice and makes fewer than \<open>2^64\<close> calls of \<open>Create\<close>, at most one thread has resolved a
  given identifier, be it a \<open>Fulfill\<close>, a \<open>Fail\<close>, or the \<open>AwaitReply\<close> on its timeout or
  cancellation path. And in every state reached by a schedule with fewer than \<open>2^64\<close>
  calls of \<open>Create\<close>, however the handles are awaited: once a \<open>Fulfill\<close> or \<open>Fail\<close> of an
  identifier has returned \<open>true\<close>, the identifier is not pending and the lookup of any
  \<open>Fulfill\<close> or \<open>Fail\<close> of it returns \<open>false\<close>. A thread that has returned stays as it is,
  so this holds in every later state.
\<close>

theorem exactly_once_resolution:
  "(run this evs init = Some s \<and> awaits_once evs \<and> creations evs < 2 ^ 64 \<longrightarrow>
      (\<forall>i j. resolves (threads s i) k \<and> resolves (threads s j) k \<longrightarrow> i = j))
   \<and> (run this evs init = Some s \<and> creations evs < 2 ^ 64 \<longrightarrow>
      (\<forall>i res. threads s i = Resolve_ret k res True \<longrightarrow>
          \<not> IsPending (mgr s) k
          \<and> (\<forall>j res'. threads s j = Resolve_lookup k res' \<longrightarrow>
                exec this (Lookup j) s
                  = Some (s\<lparr>threads := (threads s)(j := Resolve_ret k res' False)\<rparr>))))"
proof (intro impI conjI allI)
  fix i j
  assume a: "run this evs init = Some s \<and> awaits_once evs \<and> creations evs < 2 ^ 64"
    and r: "resolves (threads s i) k \<and> resolves (threads s j) k"
  have I: "inv this (creations evs) s"
    using a by (simp add: inv_reachable)
  show "i = j"
    using resolves_unique [OF I] a r by blast
next
  fix i res
  assume a: "run this evs init = Some s \<and> creations evs < 2 ^ 64"
    and r: "threads s i = Resolve_ret k res True"
  have "returned_absent s"
    using a absent_reachable by blast
  then have p: "pending (mgr s) k = None"
    using r unfolding returned_absent_def by blast
  then show "\<not> IsPending (mgr s) k" by (simp add: IsPending_def)
  fix j res'
  assume "threads s j = Resolve_lookup k res'"
  then show "exec this (Lookup j) s
                = Some (s\<lparr>threads := (threads s)(j := Resolve_ret k res' False)\<rparr>)"
    using p by simp
qed

theorem exactly_once_resolution_witness:
  "run 0 sched_second_resolver init = Some cfg_second_resolver
   \<and> awaits_once sched_second_resolver
   \<and> creations sched_second_resolver < 2 ^ 64
   \<and> resolves (threads cfg_second_resolver 1) id1
   \<and> threads cfg_second_resolver 1 = Resolve_ret id1 (Fulfill 7) True
   \<and> \<not> IsPending (mgr cfg_second_resolver) id1
   \<and> threads cfg_second_resolver 2 = Resolve_lookup id1 (Fail None)
   \<and> exec 0 (Lookup 2) cfg_second_resolver
       = Some (cfg_second_resolver\<lparr>threads := (threads cfg_second_resolver)
                 (2 := Resolve_ret id1 (Fail None) False)\<rparr>)
   \<and> run 0 sched_double_await init = Some cfg_double_await
   \<and> creations sched_double_await < 2 ^ 64
   \<and> threads cfg_double_await 1 = Resolve_ret id1 (Fulfill 7) True
   \<and> \<not> IsPending (mgr cfg_double_await) id1"
proof -
  have h: "run 0 sched_second_resolver init = Some cfg_second_resolver"
    by (rule run_sched_second_resolver)
  have h': "awaits_once sched_second_resolver" "creations sched_second_resolver < 2 ^ 64"
    by (simp_all add: awaits_once_def creations_def
          sched_second_resolver_def sched_resolved_def sched_reply_def sched_found_def)
  have t: "threads cfg_second_resolver 1 = Resolve_ret id1 (Fulfill 7) True"
    "threads cfg_second_resolver 2 = Resolve_lookup id1 (Fail None)"
    by (simp_all add: cfg_second_resolver_simps)
  have r: "resolves (threads cfg_second_resolver 1) id1"
    by (simp add: cfg_second_resolver_simps)
  have d: "run 0 sched_double_await init = Some cfg_double_await"
    by (rule run_sched_double_await)
  have d': "creations sched_double_await < 2 ^ 64"
    by (simp add: creations_def sched_double_await_def)
  have dt: "threads cfg_double_await 1 = Resolve_ret id1 (Fulfill 7) True"
    by (simp add: cfg_double_await_simps)
  have 1: "\<not> IsPending (mgr cfg_second_resolver) id1
     \<and> exec 0 (Lookup 2) cfg_second_resolver
       = Some (cfg_second_resolver\<lparr>threads := (threads cfg_second_resolver)
                 (2 := Resolve_ret id1 (Fail None) False)\<rparr>)"
    using h h' t
      exactly_once_resolution [where this = 0 and evs = sched_second_resolver
        and s = cfg_second_resolver and k = id1]
    by blast
  have 2: "\<not> IsPending (mgr cfg_double_await) id1"
    using d d' dt
      exactly_once_resolution [where this = 0 and evs = sched_double_await
        and s = cfg_double_await and k = id1]
    by blast
  show ?thesis
    using h h' t r d d' dt 1 2 by blast
qed

text \<open>
  As the spec states it, C1 fails: the code lets a handle be awaited again, and then a
  \<open>Fulfill\<close> and a \<open>Fail\<close> of one identifier both hand over their reply and both return
  \<open>true\<close>. After \<open>sched_double_await\<close>, with one request created, threads 1 and 2 have
  both resolved the identifier of 1.
\<close>

theorem exactly_once_resolution_counterexample:
  "run 0 sched_double_await init = Some cfg_double_await
   \<and> creations sched_double_await = 1
   \<and> threads cfg_double_await 1 = Resolve_ret id1 (Fulfill 7) True
   \<and> threads cfg_double_await 2 = Resolve_ret id1 (Fail None) True
   \<and> resolves (threads cfg_double_await 1) id1
   \<and> resolves (threads cfg_double_await 2) id1
   \<and> (1 :: nat) \<noteq> 2"
  using run_sched_double_await cfg_double_await_simps
  by (simp add: creations_def sched_double_await_def)

section \<open>\<open>Fulfill\<close> of a pending identifier\<close>

lemma Fulfill_handover_run:
  assumes "threads s i = Resolve_lookup ident (Fulfill payload)"
    and "pending (mgr s) ident = Some req"
    and "threads s j = Await_select r"
    and "reply req = reply r" "reply r < length (chans s)" "buf (chans s ! reply r) = []"
  shows "run this [Lookup i, Handoff i j, Await_body j, Deregister i] s
     = Some (s\<lparr>mgr := deregister ident (mgr s),
               threads := (threads s)
                 (j := Await_ret r (Recv (reply_of (Fulfill payload)))
                         (Some (EncodedPayload payload)) None,
                  i := Resolve_ret ident (Fulfill payload) True)\<rparr>)"
proof -
  have ij: "i \<noteq> j" using assms(1,3) by auto
  show ?thesis
    using assms ij by (simp add: fun_upd_twist)
qed

lemma returned_true_delivered:
  assumes "inv this n s" "threads s i = Resolve_ret ident res True"
  shows "\<exists>j r. handle_of (threads s j) = Some r \<and> identifier r = ident
           \<and> received (threads s j) = Some (reply_of res)
           \<and> (\<forall>c p e. threads s j = Await_ret r c p e \<longrightarrow>
                 (p, e) = snd (AwaitReply r (Recv (reply_of res)) (mgr s)))"
proof -
  have I: "sent_received s" "returns_ok s"
    using assms(1) by (simp_all add: inv_def)
  have "sent (threads s i) = Some (ident, reply_of res)"
    using assms(2) by simp
  then obtain j r where j: "handle_of (threads s j) = Some r" "identifier r = ident"
    "received (threads s j) = Some (reply_of res)"
    using sent_receivedD [OF I(1)] by blast
  have "\<forall>c p e. threads s j = Await_ret r c p e \<longrightarrow>
          (p, e) = snd (AwaitReply r (Recv (reply_of res)) (mgr s))"
  proof (intro allI impI)
    fix c p e assume t: "threads s j = Await_ret r c p e"
    then have "c = Recv (reply_of res)"
      using j(3) by (cases c) auto
    moreover have "snd (AwaitReply r c (mgr s)) = (p, e)"
      using I(2) t unfolding returns_ok_def by blast
    ultimately show "(p, e) = snd (AwaitReply r (Recv (reply_of res)) (mgr s))"
      by simp
  qed
  then show ?thesis using j by blast
qed

text \<open>
  Claim C4, as amended. If the identifier is pending when \<open>Fulfill(id, P)\<close> looks it up
  and the \<open>AwaitReply\<close> of that handle is in its \<open>select\<close>, then the hand-over of the
  reply, the return of \<open>AwaitReply\<close> and the \<open>deregister\<close> of \<open>Fulfill\<close> end in the state
  where \<open>AwaitReply\<close> has returned the payload \<open>P\<close> with no error, \<open>Fulfill\<close> has returned
  \<open>true\<close> and the identifier is not pending. And in every state reached by a schedule
  that awaits no handle twice with fewer than \<open>2^64\<close> calls of \<open>Create\<close>, if
  \<open>Fulfill(id, P)\<close> has returned \<open>true\<close> then \<open>id\<close> is not pending and the \<open>AwaitReply\<close> of
  the handle \<open>id\<close> has received that reply: if it has returned, it returned \<open>P\<close> with no
  error. (The lookup, the send and the removal are three steps, not one; before the
  hand-over \<open>Fulfill\<close> is blocked and \<open>AwaitReply\<close> may still time out or be cancelled.)
\<close>

theorem Fulfill_delivers_payload:
  "(threads s i = Resolve_lookup ident (Fulfill payload)
      \<and> pending (mgr s) ident = Some req \<and> threads s j = Await_select r
      \<and> reply req = reply r \<and> reply r < length (chans s) \<and> buf (chans s ! reply r) = []
     \<longrightarrow>
       run this [Lookup i, Handoff i j, Await_body j, Deregister i] s
         = Some (s\<lparr>mgr := deregister ident (mgr s),
                   threads := (threads s)
                     (j := Await_ret r (Recv (reply_of (Fulfill payload)))
                             (Some (EncodedPayload payload)) None,
                      i := Resolve_ret ident (Fulfill payload) True)\<rparr>)
       \<and> \<not> IsPending (deregister ident (mgr s)) ident)
   \<and> (run this evs init = Some s' \<and> awaits_once evs \<and> creations evs < 2 ^ 64
      \<and> threads s' i' = Resolve_ret ident' (Fulfill payload') True
     \<longrightarrow>
       \<not> IsPending (mgr s') ident'
       \<and> (\<exists>j' r'. handle_of (threads s' j') = Some r' \<and> identifier r' = ident'
             \<and> received (threads s' j') = Some (reply_of (Fulfill payload'))
             \<and> (\<forall>c p e. threads s' j' = Await_ret r' c p e \<longrightarrow>
                   p = Some (EncodedPayload payload') \<and> e = None)))"
proof (intro conjI impI)
  assume a: "threads s i = Resolve_lookup ident (Fulfill payload)
      \<and> pending (mgr s) ident = Some req \<and> threads s j = Await_select r
      \<and> reply req = reply r \<and> reply r < length (chans s) \<and> buf (chans s ! reply r) = []"
  then show "run this [Lookup i, Handoff i j, Await_body j, Deregister i] s
         = Some (s\<lparr>mgr := deregister ident (mgr s),
                   threads := (threads s)
                     (j := Await_ret r (Recv (reply_of (Fulfill payload)))
                             (Some (EncodedPayload payload)) None,
                      i := Resolve_ret ident (Fulfill payload) True)\<rparr>)"
    using Fulfill_handover_run [of s i ident payload req j r this] by blast
  show "\<not> IsPending (deregister ident (mgr s)) ident"
    by (simp add: IsPending_def deregister_def)
next
  assume a: "run this evs init = Some s' \<and> awaits_once evs \<and> creations evs < 2 ^ 64
      \<and> threads s' i' = Resolve_ret ident' (Fulfill payload') True"
  then have I: "inv this (creations evs) s'"
    by (simp add: inv_reachable)
  have t: "threads s' i' = Resolve_ret ident' (Fulfill payload') True"
    using a by simp
  have "returned_absent s'" using I by (simp add: inv_def)
  then have "pending (mgr s') ident' = None"
    using t unfolding returned_absent_def by blast
  then show "\<not> IsPending (mgr s') ident'"
    by (simp add: IsPending_def)
  obtain j' r' where j: "handle_of (threads s' j') = Some r'" "identifier r' = ident'"
    "received (threads s' j') = Some (reply_of (Fulfill payload'))"
    "\<forall>c p e. threads s' j' = Await_ret r' c p e \<longrightarrow>
       (p, e) = snd (AwaitReply r' (Recv (reply_of (Fulfill payload'))) (mgr s'))"
    using returned_true_delivered [OF I t] by blast
  have "\<forall>c p e. threads s' j' = Await_ret r' c p e \<longrightarrow>
          p = Some (EncodedPayload payload') \<and> e = None"
    using j(4) by simp
  then show "\<exists>j' r'. handle_of (threads s' j') = Some r' \<and> identifier r' = ident'
             \<and> received (threads s' j') = Some (reply_of (Fulfill payload'))
             \<and> (\<forall>c p e. threads s' j' = Await_ret r' c p e \<longrightarrow>
                   p = Some (EncodedPayload payload') \<and> e = None)"
    using j(1,2,3) by blast
qed

theorem Fulfill_delivers_payload_witness:
  "threads (cfg_found\<lparr>threads := (threads cfg_found)(1 := Resolve_lookup id1 (Fulfill 7))\<rparr>) 1
     = Resolve_lookup id1 (Fulfill 7)
   \<and> pending (mgr cfg_found) id1 = Some req1
   \<and> threads cfg_found 0 = Await_select req1
   \<and> reply req1 < length (chans cfg_found) \<and> buf (chans cfg_found ! reply req1) = []
   \<and> run 0 [Lookup 1, Handoff 1 0, Await_body 0, Deregister 1]
         (cfg_found\<lparr>threads := (threads cfg_found)(1 := Resolve_lookup id1 (Fulfill 7))\<rparr>)
       = Some cfg_resolved
   \<and> run 0 sched_resolved init = Some cfg_resolved
   \<and> awaits_once sched_resolved \<and> creations sched_resolved < 2 ^ 64
   \<and> threads cfg_resolved 1 = Resolve_ret id1 (Fulfill 7) True
   \<and> \<not> IsPending (mgr cfg_resolved) id1
   \<and> threads cfg_resolved 0
       = Await_ret req1 (Recv (reply_of (Fulfill 7))) (Some (EncodedPayload 7)) None"
proof -
  let ?pre = "cfg_found\<lparr>threads := (threads cfg_found)(1 := Resolve_lookup id1 (Fulfill 7))\<rparr>"
  have a: "threads ?pre 1 = Resolve_lookup id1 (Fulfill 7)"
    "pending (mgr ?pre) id1 = Some req1" "threads ?pre 0 = Await_select req1"
    "reply req1 = reply req1" "reply req1 < length (chans ?pre)"
    "buf (chans ?pre ! reply req1) = []"
    by (simp_all add: cfg_found_simps req1_def)
  have b: "pending (mgr cfg_found) id1 = Some req1" "threads cfg_found 0 = Await_select req1"
    "reply req1 < length (chans cfg_found)" "buf (chans cfg_found ! reply req1) = []"
    by (simp_all add: cfg_found_simps req1_def)
  have c: "?pre\<lparr>mgr := deregister id1 (mgr ?pre),
              threads := (threads ?pre)
                (0 := Await_ret req1 (Recv (reply_of (Fulfill 7))) (Some (EncodedPayload 7)) None,
                 1 := Resolve_ret id1 (Fulfill 7) True)\<rparr> = cfg_resolved"
    by (simp add: cfg_found_def cfg_resolved_def deregister_def)
  have h: "run 0 sched_resolved init = Some cfg_resolved"
    by (rule run_sched_resolved)
  have h': "awaits_once sched_resolved" "creations sched_resolved < 2 ^ 64"
    by (simp_all add: awaits_once_def creations_def sched_resolved_def sched_reply_def
          sched_found_def)
  have t: "threads cfg_resolved 1 = Resolve_ret id1 (Fulfill 7) True"
    "threads cfg_resolved 0
       = Await_ret req1 (Recv (reply_of (Fulfill 7))) (Some (EncodedPayload 7)) None"
    by (simp_all add: cfg_resolved_simps)
  have 1: "run 0 [Lookup 1, Handoff 1 0, Await_body 0, Deregister 1] ?pre = Some cfg_resolved"
    using a Fulfill_delivers_payload [where this = 0 and s = ?pre and i = 1 and ident = id1
        and payload = 7 and req = req1 and j = 0 and r = req1]
    unfolding c by blast
  have 2: "\<not> IsPending (mgr cfg_resolved) id1"
    using h h' t(1) Fulfill_delivers_payload [where this = 0 and evs = sched_resolved
        and s' = cfg_resolved and i' = 1 and ident' = id1 and payload' = 7]
    by blast
  show ?thesis
    using a(1) b 1 2 h h' t by blast
qed

text \<open>
  As the spec states it, C4 fails. From \<open>cfg_found\<close>, where \<open>Fulfill\<close> has found the
  pending entry, the \<open>AwaitReply\<close> may return the timeout error while \<open>Fulfill\<close> stays in
  its send; and when the reply is handed over, \<open>AwaitReply\<close> has returned the payload
  while the entry is still pending.
\<close>

theorem Fulfill_postcondition_counterexample:
  "run 0 sched_found init = Some cfg_found
   \<and> IsPending (mgr cfg_found) id1
   \<and> threads cfg_found 1 = Resolve_send id1 (Fulfill 7) req1
   \<and> threads cfg_found 0 = Await_select req1
   \<and> run 0 [Timer 0, Await_body 0] cfg_found = Some cfg_timeout
   \<and> threads cfg_timeout 0
       = Await_ret req1 TimerC (Some (EncodedPayload 0)) (Some (TimeoutErr ''timed out''))
   \<and> threads cfg_timeout 1 = Resolve_send id1 (Fulfill 7) req1
   \<and> run 0 [Handoff 1 0, Await_body 0] cfg_found = Some cfg_reply
   \<and> threads cfg_reply 0
       = Await_ret req1 (Recv (reply_of (Fulfill 7))) (Some (EncodedPayload 7)) None
   \<and> threads cfg_reply 1 = Resolve_dereg id1 (Fulfill 7)
   \<and> IsPending (mgr cfg_reply) id1"
proof -
  have p: "IsPending (mgr cfg_found) id1" "IsPending (mgr cfg_reply) id1"
    by (simp_all add: IsPending_def cfg_found_simps cfg_reply_simps)
  have t: "run 0 [Timer 0, Await_body 0] cfg_found = Some cfg_timeout"
    using run_sched_timeout by (simp add: sched_timeout_def run_append run_sched_found)
  have r: "run 0 [Handoff 1 0, Await_body 0] cfg_found = Some cfg_reply"
    using run_sched_reply by (simp add: sched_reply_def run_append run_sched_found)
  show ?thesis
    using p t r run_sched_found cfg_found_simps(3,4) cfg_timeout_simps(3,4)
      cfg_reply_simps(3,4)
    by blast
qed

section \<open>A reply and the cancellation or timeout of its \<open>AwaitReply\<close>\<close>

text \<open>
  \<open>AwaitReply\<close> does not try to remove the entry and look at the result: which of the
  reply, the context and the timer wins is settled by the \<open>select\<close>. On the paths of the
  context and of the timer it deregisters and returns the error, in every state; and
  when no handle is awaited twice (and fewer than \<open>2^64\<close> requests are created) the entry
  is still in the table then.
\<close>

lemma AwaitReply_other_paths:
  "threads s j = Await_select r \<Longrightarrow>
     run this [Ctx_Done j e, Await_body j] s
       = Some (s\<lparr>mgr := deregister (identifier r) (mgr s),
                 threads := (threads s)(j := Await_ret r (CtxDone e) None
                                               (Some (CanceledErr e)))\<rparr>)
     \<and> run this [Timer j, Await_body j] s
       = Some (s\<lparr>mgr := deregister (identifier r) (mgr s),
                 threads := (threads s)(j := Await_ret r TimerC (Some (EncodedPayload 0))
                                               (Some (TimeoutErr ''timed out'')))\<rparr>)"
  by (simp add: NewTimeoutErr_def TranslateContextError_def)

lemma entry_present_until_resolved:
  assumes "run this evs init = Some s" "awaits_once evs" "creations evs < 2 ^ 64"
    and "awaiting (threads s j) = Some r"
  shows "pending (mgr s) (identifier r) = Some r"
proof -
  have "inv this (creations evs) s"
    using assms(1,2,3) by (simp add: inv_reachable)
  then have o: "owner_pending s"
    by (simp add: inv_def)
  show ?thesis
    by (rule owner_pendingD [OF o assms(4)])
qed




end
